theory Spec2Isabelle
  imports Complex_Main "HOL-Library.Sublist"
begin

section \<open>Python strings\<close>

text \<open>
  A Python \<open>str\<close> is a sequence of code points. The model keeps the code points below 256
  (ASCII and Latin-1), one \<^typ>\<open>char\<close> each, with the tables Python uses for them.
\<close>

definition is_space :: "char \<Rightarrow> bool" where
  \<comment> \<open>\<open>str.isspace\<close> on one character, which is also \<open>\s\<close> of \<open>re\<close> on a \<open>str\<close> pattern:
      TAB, LF, VT, FF, CR, FS, GS, RS, US, SPACE, NEL, NBSP.\<close>
  "is_space c = ((of_char c :: nat) \<in> set [9, 10, 11, 12, 13, 28, 29, 30, 31, 32, 133, 160])"

definition is_word :: "char \<Rightarrow> bool" where
  \<comment> \<open>\<open>\w\<close> of \<open>re\<close> on a \<open>str\<close> pattern: alphanumeric (letters, digits, numeric characters)
      or the underscore.\<close>
  "is_word c =
     (let n = (of_char c :: nat) in
        (48 \<le> n \<and> n \<le> 57) \<or> (65 \<le> n \<and> n \<le> 90) \<or> n = 95 \<or> (97 \<le> n \<and> n \<le> 122) \<or>
        n = 170 \<or> n = 178 \<or> n = 179 \<or> n = 181 \<or> n = 185 \<or> n = 186 \<or>
        (188 \<le> n \<and> n \<le> 190) \<or> (192 \<le> n \<and> n \<le> 214) \<or> (216 \<le> n \<and> n \<le> 246) \<or>
        248 \<le> n)"

definition lower_char :: "char \<Rightarrow> char" where
  "lower_char c =
     (let n = (of_char c :: nat) in
        if (65 \<le> n \<and> n \<le> 90) \<or> (192 \<le> n \<and> n \<le> 222 \<and> n \<noteq> 215)
        then char_of (n + 32) else c)"

definition py_lower :: "string \<Rightarrow> string" where
  \<comment> \<open>\<open>s.lower()\<close>\<close>
  "py_lower s = map lower_char s"

definition py_strip :: "string \<Rightarrow> string" where
  \<comment> \<open>\<open>s.strip()\<close>: leading and trailing whitespace removed\<close>
  "py_strip s = rev (dropWhile is_space (rev (dropWhile is_space s)))"

fun join :: "string \<Rightarrow> string list \<Rightarrow> string" where
  \<comment> \<open>\<open>sep.join(xs)\<close>\<close>
  "join sep [] = []"
| "join sep [x] = x"
| "join sep (x # y # ys) = x @ sep @ join sep (y # ys)"

fun runs :: "(char \<Rightarrow> bool) \<Rightarrow> string \<Rightarrow> string \<Rightarrow> string list" where
  \<comment> \<open>the maximal runs of characters that satisfy \<open>P\<close>, left to right; \<open>cur\<close> is the run
      being read, reversed\<close>
  "runs P cur [] = (if cur = [] then [] else [rev cur])"
| "runs P cur (c # cs) =
     (if P c then runs P (c # cur) cs
      else if cur = [] then runs P [] cs
      else rev cur # runs P [] cs)"

definition py_split :: "string \<Rightarrow> string list" where
  \<comment> \<open>\<open>s.split()\<close>: the maximal runs of non-whitespace characters\<close>
  "py_split s = runs (\<lambda>c. \<not> is_space c) [] s"

definition re_findall_words :: "string \<Rightarrow> string list" where
  \<comment> \<open>\<open>re.findall(r"\w+", s)\<close>: the maximal runs of word characters\<close>
  "re_findall_words s = runs is_word [] s"

definition is_terminator :: "char \<Rightarrow> bool" where
  \<comment> \<open>the class \<open>[.!?\n]\<close> of the lookbehind\<close>
  "is_terminator c = (c = CHR ''.'' \<or> c = CHR ''!'' \<or> c = CHR ''?'' \<or> c = CHR 0x0A)"

function split_from :: "string \<Rightarrow> string \<Rightarrow> string list" where
  \<comment> \<open>\<open>re.split\<close> on the matches of \<open>(?<=[.!?\n])\s+\<close>. \<open>cur\<close> is the piece being read,
      reversed. A match starts at a whitespace character that follows a terminator; at the
      start of the text the lookbehind fails, and right after a match the next character is
      not whitespace, so no match starts where \<open>cur\<close> is empty. The match takes the whole
      whitespace run. The last piece is returned also when it is empty.\<close>
  "split_from cur [] = [rev cur]"
| "split_from cur (c # cs) =
     (if is_space c \<and> cur \<noteq> [] \<and> is_terminator (hd cur)
      then rev cur # split_from [] (dropWhile is_space cs)
      else split_from (c # cur) cs)"
  by pat_completeness auto
termination
  by (relation "measure (\<lambda>(cur, s). length s)")
     (auto simp: length_dropWhile_le less_Suc_eq_le)

definition re_split_sentences :: "string \<Rightarrow> string list" where
  \<comment> \<open>\<open>re.split(r"(?<=[.!?\n])\s+", text)\<close>\<close>
  "re_split_sentences text = split_from [] text"

section \<open>The deduplicator\<close>

fun dedup_loop :: "string list \<Rightarrow> string set \<Rightarrow> string list \<Rightarrow> string list" where
  \<comment> \<open>the loop of \<open>_deduplicate_sentences\<close> over \<open>sentences\<close>, with \<open>seen\<close> and \<open>ordered\<close>\<close>
  "dedup_loop [] seen ordered = ordered"
| "dedup_loop (s # ss) seen ordered =
     (let norm = py_strip s in
        if norm = [] then dedup_loop ss seen ordered
        else
          let key = py_lower norm in
            if key \<in> seen then dedup_loop ss seen ordered
            else dedup_loop ss (insert key seen) (ordered @ [norm]))"

definition deduplicate_sentences :: "string \<Rightarrow> string" where
  "deduplicate_sentences text =
     join '' '' (dedup_loop (re_split_sentences text) {} [])"

section \<open>The extractive summarizer\<close>

definition split_sentences :: "string \<Rightarrow> string list" where
  \<comment> \<open>\<open>sentences = re.split(...)\<close>, then
      \<open>[s.strip() for s in sentences if len(s.strip()) > 0]\<close>\<close>
  "split_sentences text =
     map py_strip (filter (\<lambda>s. 0 < length (py_strip s)) (re_split_sentences text))"

definition freq_get :: "(string \<rightharpoonup> nat) \<Rightarrow> string \<Rightarrow> nat" where
  \<comment> \<open>\<open>freq.get(w, 0)\<close>\<close>
  "freq_get freq w = (case freq w of None \<Rightarrow> 0 | Some n \<Rightarrow> n)"

fun count_words :: "string list \<Rightarrow> (string \<rightharpoonup> nat) \<Rightarrow> (string \<rightharpoonup> nat)" where
  \<comment> \<open>the loop that fills \<open>freq\<close>\<close>
  "count_words [] freq = freq"
| "count_words (w # ws) freq =
     (if length w \<le> 2 then count_words ws freq
      else count_words ws (freq(w \<mapsto> freq_get freq w + 1)))"

definition word_frequencies :: "string \<Rightarrow> (string \<rightharpoonup> nat)" where
  "word_frequencies text = count_words (re_findall_words (py_lower text)) Map.empty"

text \<open>
  The score is computed in floating point, \<open>sum(...) / (len(sw) ** 0.8)\<close>: the sum and the
  token count are integers, \<open>len(sw) ** 0.8\<close> is the power function of IEEE doubles and
  \<open>/\<close> converts the sum to a double and divides doubles, each with its own rounding. The
  two operations are parameters here: \<open>fpow n\<close> stands for \<open>n ** 0.8\<close> and
  \<open>fdiv a x\<close> for \<open>a / x\<close>, with values in any linear order \<open>'f\<close> (the
  finite doubles are one). The selection only compares scores, so the functions below
  take the whole arithmetic as one parameter \<open>sc\<close>, from the sum and the token count to a
  linear order.
\<close>

definition float_score :: "(nat \<Rightarrow> 'f \<Rightarrow> 'f) \<Rightarrow> (nat \<Rightarrow> 'f) \<Rightarrow> nat \<Rightarrow> nat \<Rightarrow> 'f" where
  \<comment> \<open>\<open>sum(freq.get(w, 0) for w in sw) / (len(sw) ** 0.8)\<close>\<close>
  "float_score fdiv fpow freq_sum n = fdiv freq_sum (fpow n)"

fun score_loop :: "(nat \<Rightarrow> nat \<Rightarrow> 'a) \<Rightarrow> (string \<rightharpoonup> nat) \<Rightarrow> string list \<Rightarrow> ('a \<times> string) list" where
  \<comment> \<open>the loop that fills \<open>sentence_scores\<close>\<close>
  "score_loop sc freq [] = []"
| "score_loop sc freq (s # ss) =
     (let sw = re_findall_words (py_lower s) in
        if sw = [] then score_loop sc freq ss
        else (sc (sum_list (map (freq_get freq) sw)) (length sw), s) # score_loop sc freq ss)"

definition py_sort_desc :: "('a::linorder \<times> string) list \<Rightarrow> ('a \<times> string) list" where
  \<comment> \<open>\<open>xs.sort(key=lambda x: x[0], reverse=True)\<close>: Python reverses the list, sorts it
      stably by ascending key and reverses it again\<close>
  "py_sort_desc xs = rev (sort_key fst (rev xs))"

definition word_count :: "string \<Rightarrow> int" where
  \<comment> \<open>\<open>len(s.split())\<close>\<close>
  "word_count s = int (length (py_split s))"

fun select_loop :: "int \<Rightarrow> ('a \<times> string) list \<Rightarrow> string list \<Rightarrow> int \<Rightarrow> string list" where
  \<comment> \<open>the selection loop, with \<open>selected\<close> and \<open>total_words\<close>\<close>
  "select_loop max_length [] selected total_words = selected"
| "select_loop max_length ((score, s) # rest) selected total_words =
     (let w = word_count s;
          accept = (total_words + w \<le> max_length \<or> total_words = 0);
          selected' = (if accept then selected @ [s] else selected);
          total_words' = (if accept then total_words + w else total_words)
      in if total_words' \<ge> max_length then selected'
         else select_loop max_length rest selected' total_words')"

definition sentence_scores_by :: "(nat \<Rightarrow> nat \<Rightarrow> 'a) \<Rightarrow> string \<Rightarrow> ('a \<times> string) list" where
  \<comment> \<open>\<open>sentence_scores\<close> before it is sorted\<close>
  "sentence_scores_by sc text = score_loop sc (word_frequencies text) (split_sentences text)"

definition sorted_scores_by :: "(nat \<Rightarrow> nat \<Rightarrow> 'a::linorder) \<Rightarrow> string \<Rightarrow> ('a \<times> string) list" where
  \<comment> \<open>\<open>sentence_scores\<close> after \<open>sentence_scores.sort(...)\<close>\<close>
  "sorted_scores_by sc text = py_sort_desc (sentence_scores_by sc text)"

definition extractive_selected_by :: "(nat \<Rightarrow> nat \<Rightarrow> 'a::linorder) \<Rightarrow> string \<Rightarrow> int \<Rightarrow> string list" where
  \<comment> \<open>\<open>selected\<close> when the selection loop ends\<close>
  "extractive_selected_by sc text max_length =
     select_loop max_length (sorted_scores_by sc text) [] 0"

definition summarize_extractive_by :: "(nat \<Rightarrow> nat \<Rightarrow> 'a::linorder) \<Rightarrow> string \<Rightarrow> int \<Rightarrow> int \<Rightarrow> string" where
  "summarize_extractive_by sc text min_length max_length =
     (let sentences = split_sentences text in
        if sentences = [] then []
        else
          let selected = extractive_selected_by sc text max_length;
              selected' = (if selected = [] then take 3 sentences else selected);
              result = join '' '' selected'
          in deduplicate_sentences result)"

definition summarize_extractive ::
  "(nat \<Rightarrow> 'f \<Rightarrow> 'f) \<Rightarrow> (nat \<Rightarrow> 'f::linorder) \<Rightarrow> string \<Rightarrow> int \<Rightarrow> int \<Rightarrow> string" where
  \<comment> \<open>\<open>_summarize_extractive\<close>, over the double division \<open>fdiv\<close> and power \<open>fpow\<close>\<close>
  "summarize_extractive fdiv fpow text min_length max_length =
     summarize_extractive_by (float_score fdiv fpow) text min_length max_length"

section \<open>The chunker\<close>

definition py_slice :: "'a list \<Rightarrow> int \<Rightarrow> int \<Rightarrow> 'a list" where
  \<comment> \<open>\<open>xs[lo:hi]\<close>: a negative index counts from the end, and both are clamped\<close>
  "py_slice xs lo hi =
     (let n = int (length xs);
          a = (if lo < 0 then max 0 (lo + n) else min lo n);
          b = (if hi < 0 then max 0 (hi + n) else min hi n)
      in take (nat (b - a)) (drop (nat a) xs))"

function range_from :: "nat \<Rightarrow> nat \<Rightarrow> nat \<Rightarrow> nat list" where
  \<comment> \<open>\<open>range(i, n, step)\<close> for a positive step\<close>
  "range_from i n step =
     (if i < n \<and> 0 < step then i # range_from (i + step) n step else [])"
  by pat_completeness auto
termination
  by (relation "measure (\<lambda>(i, n, step). n - i)") auto

declare range_from.simps [simp del]

definition chunk_text :: "string \<Rightarrow> int \<Rightarrow> int \<Rightarrow> string list" where
  "chunk_text text max_words overlap_words =
     (let words = py_split text;
          step = max 1 (max_words - overlap_words)
      in filter (\<lambda>chunk. py_strip chunk \<noteq> [])
           (map (\<lambda>i. join '' '' (py_slice words (int i) (int i + max_words)))
              (range_from 0 (length words) (nat step))))"

section \<open>The abstractive summarizers and the facade\<close>

text \<open>
  The generative backends are outside the program. A call to one of them is recorded in the
  state, and its outcome is read from \<open>respond\<close>, which maps the calls made so far and the
  present call to a returned string or to the exception raised. Exceptions are values of
  \<open>error\<close>; the ones that come from a library are of Python's class \<open>Exception\<close>, which is
  what \<open>except Exception\<close> catches. \<open>ValueError\<close> is the one the facade raises, with its
  message; \<open>RuntimeError\<close> is the one raised when \<open>OPENAI_API_KEY\<close> is unset or empty (its
  message is Korean text, which 8-bit characters cannot hold); \<open>ExternalError\<close> is any
  exception raised inside a library. The type \<open>'f\<close> stands for Python's floats. The system
  prompt of the chat completion is a fixed Korean text around \<open>min_length\<close> and
  \<open>max_length\<close>, so the recorded call holds these two numbers in its place.
\<close>

datatype error =
    ValueError string
  | RuntimeError
  | ExternalError string

datatype AbstractiveProvider = OPENAI | TRANSFORMERS

record 'f pipe_args =
  pa_text :: string
  pa_min_length :: int
  pa_max_length :: int
  pa_num_beams :: int
  pa_no_repeat_ngram_size :: int
  pa_length_penalty :: 'f

datatype 'f backend_call =
    ImportModule string
  | LoadPipeline string
  | PipeCall "'f pipe_args"
  | OpenAIClient
  | ChatCompletion string int int string 'f

record 'f world =
  api_key :: "string option"
  respond :: "'f backend_call list \<Rightarrow> 'f backend_call \<Rightarrow> error + string"

record 'f py_state =
  transformer_pipe :: bool
  calls :: "'f backend_call list"

definition call_backend ::
  "'f world \<Rightarrow> 'f backend_call \<Rightarrow> 'f py_state \<Rightarrow> (error + string) \<times> 'f py_state" where
  "call_backend wd c st = (respond wd (calls st) c, st\<lparr>calls := calls st @ [c]\<rparr>)"

definition get_transformer_pipeline ::
  "'f world \<Rightarrow> 'f py_state \<Rightarrow> (error + unit) \<times> 'f py_state" where
  "get_transformer_pipeline wd st =
     (if transformer_pipe st then (Inr (), st)
      else
        case call_backend wd (ImportModule ''transformers'') st of
          (Inl e, st1) \<Rightarrow> (Inl e, st1)
        | (Inr _, st1) \<Rightarrow>
            (case call_backend wd (LoadPipeline ''facebook/bart-large-cnn'') st1 of
               (Inr _, st2) \<Rightarrow> (Inr (), st2\<lparr>transformer_pipe := True\<rparr>)
             | (Inl _, st2) \<Rightarrow>
                 (case call_backend wd (LoadPipeline ''sshleifer/distilbart-cnn-12-6'') st2 of
                    (Inr _, st3) \<Rightarrow> (Inr (), st3\<lparr>transformer_pipe := True\<rparr>)
                  | (Inl e, st3) \<Rightarrow> (Inl e, st3))))"

definition chunk_args :: "int \<Rightarrow> int \<Rightarrow> int \<Rightarrow> int \<Rightarrow> 'f \<Rightarrow> string \<Rightarrow> 'f pipe_args" where
  \<comment> \<open>the arguments of the call for the chunk \<open>c\<close>. \<open>int(c_words * 0.6)\<close> multiplies in doubles
      and truncates; for a word count below \<open>2 ^ 53\<close> that is \<open>(6 * c_words) div 10\<close>\<close>
  "chunk_args min_length max_length num_beams no_repeat_ngram_size length_penalty c =
     (let c_words = word_count c;
          local_max = max 20 (min max_length ((c_words * 6) div 10));
          local_min = max 5 (min min_length (max (local_max - 40) 5));
          local_min' = (if local_min \<ge> local_max then max 5 (local_max - 5) else local_min)
      in \<lparr>pa_text = c, pa_min_length = local_min', pa_max_length = local_max,
          pa_num_beams = num_beams, pa_no_repeat_ngram_size = no_repeat_ngram_size,
          pa_length_penalty = length_penalty\<rparr>)"

definition chunk_fallback :: "string \<Rightarrow> string" where
  \<comment> \<open>the \<open>except\<close> branch: \<open>" ".join(safe[:2]).strip()\<close>\<close>
  "chunk_fallback c = py_strip (join '' '' (py_slice (re_split_sentences c) 0 2))"

fun chunk_loop ::
  "'f world \<Rightarrow> int \<Rightarrow> int \<Rightarrow> int \<Rightarrow> int \<Rightarrow> 'f \<Rightarrow> string list \<Rightarrow> string list \<Rightarrow> 'f py_state
     \<Rightarrow> string list \<times> 'f py_state" where
  "chunk_loop wd mn mx nb nr lp [] outputs st = (outputs, st)"
| "chunk_loop wd mn mx nb nr lp (c # cs) outputs st =
     (case call_backend wd (PipeCall (chunk_args mn mx nb nr lp c)) st of
        (Inr res, st') \<Rightarrow> chunk_loop wd mn mx nb nr lp cs (outputs @ [py_strip res]) st'
      | (Inl e, st') \<Rightarrow> chunk_loop wd mn mx nb nr lp cs (outputs @ [chunk_fallback c]) st')"

definition summarize_abstractive_transformers ::
  "'f world \<Rightarrow> string \<Rightarrow> int \<Rightarrow> int \<Rightarrow> int \<Rightarrow> int \<Rightarrow> 'f \<Rightarrow> 'f py_state
     \<Rightarrow> (error + string) \<times> 'f py_state" where
  "summarize_abstractive_transformers wd text min_length max_length num_beams
       no_repeat_ngram_size length_penalty st =
     (case get_transformer_pipeline wd st of
        (Inl e, st1) \<Rightarrow> (Inl e, st1)
      | (Inr _, st1) \<Rightarrow>
          (case chunk_loop wd min_length max_length num_beams no_repeat_ngram_size
                  length_penalty (chunk_text text 450 60) [] st1 of
             (outputs, st2) \<Rightarrow>
               (let combined = join [CHR 0x0A, CHR 0x0A] outputs in
                  if length outputs > 1 then
                    (case call_backend wd
                        (PipeCall \<lparr>pa_text = combined, pa_min_length = min_length,
                           pa_max_length = max_length, pa_num_beams = max 4 num_beams,
                           pa_no_repeat_ngram_size = no_repeat_ngram_size,
                           pa_length_penalty = length_penalty\<rparr>) st2 of
                       (Inr refined, st3) \<Rightarrow> (Inr (deduplicate_sentences (py_strip refined)), st3)
                     | (Inl e, st3) \<Rightarrow> (Inr (deduplicate_sentences combined), st3))
                  else (Inr (deduplicate_sentences combined), st2))))"

definition summarize_abstractive_openai ::
  "'f world \<Rightarrow> string \<Rightarrow> int \<Rightarrow> int \<Rightarrow> 'f \<Rightarrow> string \<Rightarrow> 'f py_state
     \<Rightarrow> (error + string) \<times> 'f py_state" where
  "summarize_abstractive_openai wd text min_length max_length temperature model st =
     (case call_backend wd (ImportModule ''openai'') st of
        (Inl e, st1) \<Rightarrow> (Inl e, st1)
      | (Inr _, st1) \<Rightarrow>
          (if api_key wd = None \<or> api_key wd = Some [] then (Inl RuntimeError, st1)
           else
             case call_backend wd OpenAIClient st1 of
               (Inl e, st2) \<Rightarrow> (Inl e, st2)
             | (Inr _, st2) \<Rightarrow>
                 (case call_backend wd
                     (ChatCompletion model min_length max_length text temperature) st2 of
                    (Inl e, st3) \<Rightarrow> (Inl e, st3)
                  | (Inr content, st3) \<Rightarrow> (Inr (py_strip content), st3))))"

record 'f summarize_options =
  provider :: "AbstractiveProvider option"
  temperature :: 'f
  openai_model :: string
  num_beams :: int
  no_repeat_ngram_size :: int
  length_penalty :: 'f

definition summarize_text ::
  "'f world \<Rightarrow> (nat \<Rightarrow> 'f \<Rightarrow> 'f) \<Rightarrow> (nat \<Rightarrow> 'f::linorder) \<Rightarrow> string \<Rightarrow> string \<Rightarrow> int \<Rightarrow> int
     \<Rightarrow> 'f summarize_options \<Rightarrow> 'f py_state \<Rightarrow> (error + string) \<times> 'f py_state" where
  "summarize_text wd fdiv fpow text mode min_length max_length opts st =
     (let text' = py_strip text in
        if text' = [] then (Inr [], st)
        else if mode = ''extractive'' then
          (Inr (summarize_extractive fdiv fpow text' min_length max_length), st)
        else if mode = ''abstractive'' then
          (if provider opts = Some OPENAI then
             (case summarize_abstractive_openai wd text' min_length max_length
                     (temperature opts) (openai_model opts) st of
                (Inl e, st') \<Rightarrow> (Inl e, st')
              | (Inr s, st') \<Rightarrow> (Inr (deduplicate_sentences s), st'))
           else summarize_abstractive_transformers wd text' min_length max_length
                  (num_beams opts) (no_repeat_ngram_size opts) (length_penalty opts) st)
        else (Inl (ValueError (''Unknown mode: '' @ mode)), st))"

section \<open>Auxiliary definitions for the statements\<close>

definition sentence_units :: "string \<Rightarrow> string list" where
  "sentence_units text = filter (\<lambda>u. u \<noteq> []) (map py_strip (re_split_sentences text))"

fun keep_unseen :: "string set \<Rightarrow> string list \<Rightarrow> string list" where
  "keep_unseen seen [] = []"
| "keep_unseen seen (u # us) =
     (if py_lower u \<in> seen then keep_unseen seen us
      else u # keep_unseen (insert (py_lower u) seen) us)"

definition first_occurrences :: "string list \<Rightarrow> string list" where
  "first_occurrences us =
     map (\<lambda>i. us ! i)
       (filter (\<lambda>i. \<forall>j < i. py_lower (us ! j) \<noteq> py_lower (us ! i)) [0 ..< length us])"

fun nosplit :: "string \<Rightarrow> bool" where
  "nosplit [] = True"
| "nosplit [c] = True"
| "nosplit (a # b # cs) = (\<not> (is_terminator a \<and> is_space b) \<and> nosplit (b # cs))"

definition trimmed :: "string \<Rightarrow> bool" where
  "trimmed u = (u \<noteq> [] \<and> \<not> is_space (hd u) \<and> \<not> is_space (last u))"

definition hard_end :: "string \<Rightarrow> bool" where
  "hard_end u = (u \<noteq> [] \<and> is_terminator (last u) \<and> \<not> is_space (last u))"

definition total_words :: "string list \<Rightarrow> int" where
  "total_words xs = sum_list (map word_count xs)"

definition within_budget :: "int \<Rightarrow> string list \<Rightarrow> bool" where
  "within_budget mx xs =
     (\<forall>i. 0 < i \<and> i < length xs \<longrightarrow>
        total_words (take i xs) < mx \<and> total_words (take (Suc i) xs) \<le> mx)"

definition word_tokens :: "string \<Rightarrow> string list" where
  "word_tokens s = re_findall_words (py_lower s)"

definition chunk_requests ::
  "int \<Rightarrow> int \<Rightarrow> int \<Rightarrow> int \<Rightarrow> 'f \<Rightarrow> string list \<Rightarrow> 'f backend_call list" where
  "chunk_requests mn mx nb nr lp cs = map (\<lambda>c. PipeCall (chunk_args mn mx nb nr lp c)) cs"

definition chunk_response ::
  "'f world \<Rightarrow> int \<Rightarrow> int \<Rightarrow> int \<Rightarrow> int \<Rightarrow> 'f \<Rightarrow> string list \<Rightarrow> 'f py_state \<Rightarrow> nat \<Rightarrow> error + string" where
  "chunk_response wd mn mx nb nr lp cs st k =
     respond wd (calls st @ chunk_requests mn mx nb nr lp (take k cs))
       (PipeCall (chunk_args mn mx nb nr lp (cs ! k)))"

definition chunk_outputs ::
  "'f world \<Rightarrow> int \<Rightarrow> int \<Rightarrow> int \<Rightarrow> int \<Rightarrow> 'f \<Rightarrow> string list \<Rightarrow> 'f py_state \<Rightarrow> string list" where
  "chunk_outputs wd mn mx nb nr lp cs st = fst (chunk_loop wd mn mx nb nr lp cs [] st)"

section \<open>The deduplicator keeps first occurrences\<close>

lemma dedup_loop_ordered: "dedup_loop ss seen ordered = ordered @ dedup_loop ss seen []"
proof (induction ss arbitrary: seen ordered)
  case Nil
  show ?case by simp
next
  case (Cons s ss)
  have step: "dedup_loop ss (insert (py_lower (py_strip s)) seen) (ordered @ [py_strip s])
      = ordered @ dedup_loop ss (insert (py_lower (py_strip s)) seen) [py_strip s]"
    using Cons.IH [of "insert (py_lower (py_strip s)) seen" "ordered @ [py_strip s]"]
          Cons.IH [of "insert (py_lower (py_strip s)) seen" "[py_strip s]"]
    by simp
  show ?case
    using Cons.IH [of seen ordered] step by (simp add: Let_def)
qed

lemma dedup_loop_keep:
  "dedup_loop ss seen [] = keep_unseen seen (filter (\<lambda>u. u \<noteq> []) (map py_strip ss))"
proof (induction ss arbitrary: seen)
  case Nil
  show ?case by simp
next
  case (Cons s ss)
  show ?case
    using Cons.IH [of seen] Cons.IH [of "insert (py_lower (py_strip s)) seen"]
      dedup_loop_ordered [of ss "insert (py_lower (py_strip s)) seen" "[py_strip s]"]
    by (simp add: Let_def)
qed

lemma deduplicate_units:
  "deduplicate_sentences text = join '' '' (keep_unseen {} (sentence_units text))"
  by (simp add: deduplicate_sentences_def sentence_units_def dedup_loop_keep)

lemma keep_unseen_index:
  "keep_unseen seen us =
     map (\<lambda>i. us ! i)
       (filter (\<lambda>i. py_lower (us ! i) \<notin> seen \<and> (\<forall>j < i. py_lower (us ! j) \<noteq> py_lower (us ! i)))
          [0 ..< length us])"
proof (induction us arbitrary: seen)
  case Nil
  show ?case by simp
next
  case (Cons u us)
  have idx: "[0 ..< length (u # us)] = 0 # map Suc [0 ..< length us]"
    by (simp add: upt_conv_Cons map_Suc_upt del: upt_Suc)
  have all_Suc: "\<And>i Q. (\<forall>j < Suc i. Q j) = (Q 0 \<and> (\<forall>j < i. Q (Suc j)))"
    by (metis less_Suc_eq_0_disj)
  show ?case
  proof (cases "py_lower u \<in> seen")
    case True
    show ?thesis
      unfolding idx using True Cons.IH [of seen]
      apply (simp add: filter_map o_def all_Suc del: upt_Suc)
      apply (rule arg_cong [where f = "map ((!) us)"])
      apply (rule filter_cong)
       apply auto
      done
  next
    case False
    show ?thesis
      unfolding idx using False Cons.IH [of "insert (py_lower u) seen"]
      apply (simp add: filter_map o_def all_Suc del: upt_Suc)
      apply (rule arg_cong [where f = "map ((!) us)"])
      apply (rule filter_cong)
       apply auto
      done
  qed
qed

lemma keep_unseen_first_occurrences: "keep_unseen {} us = first_occurrences us"
  by (simp add: keep_unseen_index first_occurrences_def)

section \<open>Pieces of the sentence split\<close>

lemma nosplit_snoc:
  "nosplit (xs @ [c]) = (nosplit xs \<and> (xs \<noteq> [] \<longrightarrow> \<not> (is_terminator (last xs) \<and> is_space c)))"
  by (induction xs rule: nosplit.induct) auto

lemma nosplit_append_left: "nosplit (xs @ ys) \<Longrightarrow> nosplit xs"
  by (induction xs rule: nosplit.induct) auto

lemma nosplit_Cons: "nosplit (x # xs) \<Longrightarrow> nosplit xs"
  by (cases xs) auto

lemma nosplit_append_right: "nosplit (xs @ ys) \<Longrightarrow> nosplit ys"
  by (induction xs) (auto dest: nosplit_Cons)

lemma split_from_nosplit:
  "nosplit (rev cur) \<Longrightarrow> p \<in> set (split_from cur s) \<Longrightarrow> nosplit p"
proof (induction cur s rule: split_from.induct)
  case (1 cur)
  then show ?case by simp
next
  case (2 cur c cs)
  show ?case
  proof (cases "is_space c \<and> cur \<noteq> [] \<and> is_terminator (hd cur)")
    case True
    with 2 show ?thesis by auto
  next
    case False
    then have "nosplit (rev (c # cur))"
      using "2.prems"(1) by (auto simp: nosplit_snoc last_rev)
    with 2 False show ?thesis by auto
  qed
qed

lemma py_strip_decomp: "\<exists>a b. s = a @ py_strip s @ b"
proof -
  let ?t = "dropWhile is_space s"
  have 1: "s = takeWhile is_space s @ ?t" by simp
  have "rev ?t = takeWhile is_space (rev ?t) @ dropWhile is_space (rev ?t)" by simp
  then have "?t = rev (dropWhile is_space (rev ?t)) @ rev (takeWhile is_space (rev ?t))"
    by (metis rev_append rev_rev_ident)
  then have "s = takeWhile is_space s @ py_strip s @ rev (takeWhile is_space (rev ?t))"
    using 1 by (simp add: py_strip_def)
  then show ?thesis by blast
qed

lemma nosplit_py_strip: "nosplit s \<Longrightarrow> nosplit (py_strip s)"
proof -
  assume n: "nosplit s"
  obtain a b where "s = a @ py_strip s @ b" using py_strip_decomp by blast
  then show ?thesis using n by (metis nosplit_append_left nosplit_append_right)
qed

lemma all_dropWhile: "(\<forall>x \<in> set (dropWhile P s). P x) \<longleftrightarrow> (\<forall>x \<in> set s. P x)"
  by (induction s) auto

lemma py_strip_empty_iff: "py_strip s = [] \<longleftrightarrow> (\<forall>c \<in> set s. is_space c)"
  by (simp add: py_strip_def dropWhile_eq_Nil_conv all_dropWhile)

lemma hd_py_strip: "py_strip s \<noteq> [] \<Longrightarrow> \<not> is_space (hd (py_strip s))"
proof -
  assume ne: "py_strip s \<noteq> []"
  let ?t = "dropWhile is_space s"
  have t: "?t \<noteq> []" using ne by (cases "dropWhile is_space s") (auto simp: py_strip_def)
  have h: "\<not> is_space (hd ?t)" using t by (simp add: hd_dropWhile)
  have "?t = py_strip s @ rev (takeWhile is_space (rev ?t))"
    unfolding py_strip_def by (metis rev_append rev_rev_ident takeWhile_dropWhile_id)
  then have "hd ?t = hd (py_strip s)" using ne by (metis hd_append2)
  then show ?thesis using h by simp
qed

lemma last_py_strip: "py_strip s \<noteq> [] \<Longrightarrow> \<not> is_space (last (py_strip s))"
proof -
  assume ne: "py_strip s \<noteq> []"
  let ?r = "dropWhile is_space (rev (dropWhile is_space s))"
  have r: "?r \<noteq> []" using ne by (simp add: py_strip_def)
  have "\<not> is_space (hd ?r)" using r by (simp add: hd_dropWhile)
  moreover have "last (py_strip s) = hd ?r" using r by (simp add: py_strip_def last_rev)
  ultimately show ?thesis by simp
qed

lemma trimmed_py_strip: "py_strip s \<noteq> [] \<Longrightarrow> trimmed (py_strip s)"
  by (simp add: trimmed_def hd_py_strip last_py_strip)

lemma py_strip_trimmed: "trimmed u \<Longrightarrow> py_strip u = u"
proof -
  assume t: "trimmed u"
  then have 1: "dropWhile is_space u = u"
    by (cases u) (auto simp: trimmed_def)
  have "rev u \<noteq> [] \<and> \<not> is_space (hd (rev u))" using t by (simp add: trimmed_def hd_rev)
  then have 2: "dropWhile is_space (rev u) = rev u"
    by (cases "rev u") auto
  show ?thesis by (simp add: py_strip_def 1 2)
qed

lemma split_from_absorb:
  "nosplit (rev cur @ u) \<Longrightarrow> split_from cur (u @ rest) = split_from (rev u @ cur) rest"
proof (induction u arbitrary: cur)
  case Nil
  show ?case by simp
next
  case (Cons c u)
  have n1: "nosplit (rev cur @ [c])"
    using Cons.prems nosplit_append_left [of "rev cur @ [c]" u] by simp
  then have no: "\<not> (is_space c \<and> cur \<noteq> [] \<and> is_terminator (hd cur))"
    by (auto simp: nosplit_snoc last_rev)
  have "nosplit (rev (c # cur) @ u)" using Cons.prems by simp
  then have "split_from (c # cur) (u @ rest) = split_from (rev u @ c # cur) rest"
    by (rule Cons.IH)
  then show ?case using no by auto
qed

section \<open>Deduplicating a deduplicated text\<close>

lemma is_space_blank: "is_space CHR '' ''"
  by (simp add: is_space_def)

lemma hd_join: "ks \<noteq> [] \<Longrightarrow> hd ks \<noteq> [] \<Longrightarrow> hd (join sep ks) = hd (hd ks)"
  by (induction sep ks rule: join.induct) auto

lemma resplit_join:
  "ks \<noteq> [] \<Longrightarrow> \<forall>k \<in> set ks. trimmed k \<and> nosplit k \<Longrightarrow> \<forall>k \<in> set (butlast ks). hard_end k
   \<Longrightarrow> split_from [] (join '' '' ks) = ks"
proof (induction "'' ''" ks rule: join.induct)
  case 1
  then show ?case by simp
next
  case (2 x)
  then have "nosplit (rev [] @ x)" by simp
  then have "split_from [] (x @ []) = split_from (rev x @ []) []"
    by (rule split_from_absorb)
  then show ?case by simp
next
  case (3 x y ys)
  let ?rest = "join '' '' (y # ys)"
  have x: "trimmed x" "nosplit x" "hard_end x" using "3.prems" by auto
  have y: "trimmed y" using "3.prems" by auto
  have "nosplit (rev [] @ x)" using x by simp
  then have a: "split_from [] (x @ CHR '' '' # ?rest) = split_from (rev x @ []) (CHR '' '' # ?rest)"
    by (rule split_from_absorb)
  have hdx: "rev x \<noteq> []" "is_terminator (hd (rev x))"
    using x by (auto simp: hard_end_def hd_rev)
  have "hd ?rest = hd y" using y by (simp add: hd_join trimmed_def)
  moreover have "?rest \<noteq> []" using y by (cases ys) (auto simp: trimmed_def)
  ultimately have dw: "dropWhile is_space ?rest = ?rest"
    using y by (cases ?rest) (auto simp: trimmed_def)
  have b: "split_from (rev x) (CHR '' '' # ?rest) = x # split_from [] ?rest"
    using hdx dw by (simp add: is_space_blank)
  have ih: "split_from [] ?rest = y # ys"
    using "3.hyps" "3.prems" by auto
  show ?case using a b ih by simp
qed

lemma split_from_ne: "split_from cur s \<noteq> []"
  by (induction cur s rule: split_from.induct) auto

lemma pieces_butlast:
  "p \<in> set (butlast (split_from cur s)) \<Longrightarrow> p \<noteq> [] \<and> is_terminator (last p)"
proof (induction cur s rule: split_from.induct)
  case (1 cur)
  then show ?case by simp
next
  case (2 cur c cs)
  show ?case
  proof (cases "is_space c \<and> cur \<noteq> [] \<and> is_terminator (hd cur)")
    case True
    then have "p = rev cur \<or> p \<in> set (butlast (split_from [] (dropWhile is_space cs)))"
      using "2.prems" by (simp add: split_from_ne)
    then show ?thesis
      using True "2.IH"(1) by (auto simp: last_rev)
  next
    case False
    then show ?thesis using 2 by auto
  qed
qed

lemma pieces_chars: "p \<in> set (split_from cur s) \<Longrightarrow> set p \<subseteq> set cur \<union> set s"
proof (induction cur s rule: split_from.induct)
  case (1 cur)
  then show ?case by simp
next
  case (2 cur c cs)
  show ?case
  proof (cases "is_space c \<and> cur \<noteq> [] \<and> is_terminator (hd cur)")
    case True
    then have "p = rev cur \<or> p \<in> set (split_from [] (dropWhile is_space cs))"
      using "2.prems" by simp
    then show ?thesis
    proof
      assume "p = rev cur"
      then show ?thesis by auto
    next
      assume "p \<in> set (split_from [] (dropWhile is_space cs))"
      then have "set p \<subseteq> set [] \<union> set (dropWhile is_space cs)"
        using True "2.IH"(1) by blast
      then show ?thesis using set_dropWhileD by fastforce
    qed
  next
    case False
    then show ?thesis using 2 by auto
  qed
qed

lemma subseq_butlast: "subseq ys xs \<Longrightarrow> set (butlast ys) \<subseteq> set (butlast xs)"
proof (induction rule: list_emb.induct)
  case (list_emb_Nil ys)
  then show ?case by simp
next
  case (list_emb_Cons xs ys y)
  then show ?case by auto
next
  case (list_emb_Cons2 x y xs ys)
  then show ?case by (cases "xs = []") auto
qed

lemma py_strip_keeps_last:
  assumes "p \<noteq> []" "\<not> is_space (last p)"
  shows "py_strip p \<noteq> [] \<and> last (py_strip p) = last p"
proof -
  have "\<not> (\<forall>c \<in> set p. is_space c)" using assms last_in_set by blast
  then have ne: "py_strip p \<noteq> []" by (simp add: py_strip_empty_iff)
  let ?t = "dropWhile is_space p"
  have t: "?t \<noteq> []" using ne by (cases ?t) (auto simp: py_strip_def)
  have "p = takeWhile is_space p @ ?t" by simp
  then have lt: "last ?t = last p" using t by (metis last_appendR)
  have "rev ?t \<noteq> [] \<and> \<not> is_space (hd (rev ?t))" using t lt assms by (simp add: hd_rev)
  then have "dropWhile is_space (rev ?t) = rev ?t" by (cases "rev ?t") auto
  then have "py_strip p = ?t" by (simp add: py_strip_def)
  then show ?thesis using ne lt by simp
qed

lemma hard_end_py_strip: "hard_end p \<Longrightarrow> hard_end (py_strip p)"
  using py_strip_keeps_last [of p] by (auto simp: hard_end_def)

lemma pieces_hard_end:
  assumes "\<forall>q \<in> set (butlast (re_split_sentences text)). last q \<noteq> CHR 0x0A"
    and "p \<in> set (butlast (re_split_sentences text))"
  shows "hard_end p"
proof -
  have a: "p \<noteq> [] \<and> is_terminator (last p)"
    using assms(2) pieces_butlast by (simp add: re_split_sentences_def)
  have "last p \<noteq> CHR 0x0A" using assms by blast
  then have "last p = CHR ''.'' \<or> last p = CHR ''!'' \<or> last p = CHR ''?''"
    using a by (auto simp: is_terminator_def)
  then have "\<not> is_space (last p)" by (auto simp: is_space_def)
  then show ?thesis using a by (simp add: hard_end_def)
qed

lemma units_hard_end:
  assumes "\<forall>q \<in> set (butlast (re_split_sentences text)). last q \<noteq> CHR 0x0A"
    and "u \<in> set (butlast (sentence_units text))"
  shows "hard_end u"
proof -
  let ?ps = "re_split_sentences text"
  have "subseq (sentence_units text) (map py_strip ?ps)"
    by (simp add: sentence_units_def)
  then have "u \<in> set (butlast (map py_strip ?ps))"
    using assms(2) subseq_butlast by blast
  then obtain p where "p \<in> set (butlast ?ps)" "u = py_strip p"
    by (auto simp: map_butlast [symmetric])
  then show ?thesis using assms(1) pieces_hard_end hard_end_py_strip by blast
qed

lemma no_newline_pieces:
  assumes "CHR 0x0A \<notin> set text"
  shows "\<forall>q \<in> set (butlast (re_split_sentences text)). last q \<noteq> CHR 0x0A"
proof
  fix q assume q: "q \<in> set (butlast (re_split_sentences text))"
  then have "q \<noteq> []"
    using pieces_butlast by (simp add: re_split_sentences_def)
  moreover have "q \<in> set (split_from [] text)"
    using q in_set_butlastD by (fastforce simp: re_split_sentences_def)
  then have "set q \<subseteq> set text" using pieces_chars by fastforce
  ultimately show "last q \<noteq> CHR 0x0A" using assms last_in_set by fastforce
qed

lemma units_trimmed_nosplit:
  assumes "u \<in> set (sentence_units text)"
  shows "trimmed u \<and> nosplit u"
proof -
  obtain p where p: "p \<in> set (split_from [] text)" "u = py_strip p" "u \<noteq> []"
    using assms by (auto simp: sentence_units_def re_split_sentences_def)
  have "nosplit p" using p(1) split_from_nosplit [of "[]"] by simp
  then show ?thesis using p nosplit_py_strip trimmed_py_strip by auto
qed

lemma keep_unseen_set: "u \<in> set (keep_unseen seen us) \<Longrightarrow> u \<in> set us"
  by (induction us arbitrary: seen) (auto split: if_splits)

lemma keep_unseen_subseq: "subseq (keep_unseen seen us) us"
  by (induction us arbitrary: seen) auto

lemma keep_unseen_fresh: "u \<in> set (keep_unseen seen us) \<Longrightarrow> py_lower u \<notin> seen"
  by (induction us arbitrary: seen) (auto split: if_splits)

lemma keep_unseen_distinct: "distinct (map py_lower (keep_unseen seen us))"
proof (induction us arbitrary: seen)
  case Nil
  show ?case by simp
next
  case (Cons a us)
  have "py_lower a \<notin> py_lower ` set (keep_unseen (insert (py_lower a) seen) us)"
  proof
    assume "py_lower a \<in> py_lower ` set (keep_unseen (insert (py_lower a) seen) us)"
    then obtain x where x: "x \<in> set (keep_unseen (insert (py_lower a) seen) us)"
      and e: "py_lower a = py_lower x" by blast
    have "py_lower x \<notin> insert (py_lower a) seen" using x by (rule keep_unseen_fresh)
    then show False using e by simp
  qed
  then show ?case using Cons.IH by simp
qed

lemma keep_unseen_id:
  "distinct (map py_lower us) \<Longrightarrow> \<forall>u \<in> set us. py_lower u \<notin> seen \<Longrightarrow> keep_unseen seen us = us"
proof (induction us arbitrary: seen)
  case Nil
  show ?case by simp
next
  case (Cons a us)
  have "\<forall>u \<in> set us. py_lower u \<notin> insert (py_lower a) seen"
  proof
    fix u assume u: "u \<in> set us"
    then have "py_lower u \<in> py_lower ` set us" by (rule imageI)
    moreover have "py_lower a \<notin> py_lower ` set us" using Cons.prems(1) by simp
    ultimately have "py_lower u \<noteq> py_lower a" by metis
    then show "py_lower u \<notin> insert (py_lower a) seen" using u Cons.prems(2) by simp
  qed
  moreover have "distinct (map py_lower us)" using Cons.prems by simp
  ultimately have "keep_unseen (insert (py_lower a) seen) us = us"
    by (rule Cons.IH [rotated])
  then show ?case using Cons.prems by simp
qed

lemma dedup_fixed_point:
  assumes ne: "ks \<noteq> []"
    and ok: "\<forall>k \<in> set ks. trimmed k \<and> nosplit k"
    and he: "\<forall>k \<in> set (butlast ks). hard_end k"
    and di: "distinct (map py_lower ks)"
  shows "deduplicate_sentences (join '' '' ks) = join '' '' ks"
proof -
  have sp: "re_split_sentences (join '' '' ks) = ks"
    using resplit_join [OF ne ok he] by (simp add: re_split_sentences_def)
  have "map py_strip ks = ks"
    using ok by (simp add: py_strip_trimmed map_idI)
  moreover have "filter (\<lambda>u. u \<noteq> []) ks = ks"
    using ok by (auto simp: trimmed_def filter_id_conv)
  ultimately have "sentence_units (join '' '' ks) = ks"
    by (simp add: sentence_units_def sp)
  moreover have "keep_unseen {} ks = ks" using di by (simp add: keep_unseen_id)
  ultimately show ?thesis by (simp add: deduplicate_units)
qed

lemma dedup_empty: "deduplicate_sentences [] = []"
  by code_simp

section \<open>The extractive summary is not empty\<close>

lemma in_dropWhile: "x \<in> set xs \<Longrightarrow> \<not> P x \<Longrightarrow> x \<in> set (dropWhile P xs)"
  by (induction xs) auto

lemma split_from_keeps_char:
  "c \<in> set cur \<union> set s \<Longrightarrow> \<not> is_space c \<Longrightarrow> \<exists>p \<in> set (split_from cur s). c \<in> set p"
proof (induction cur s rule: split_from.induct)
  case (1 cur)
  then show ?case by simp
next
  case (2 cur c0 cs)
  show ?case
  proof (cases "is_space c0 \<and> cur \<noteq> [] \<and> is_terminator (hd cur)")
    case True
    show ?thesis
    proof (cases "c \<in> set cur")
      case True
      then show ?thesis using \<open>is_space c0 \<and> cur \<noteq> [] \<and> is_terminator (hd cur)\<close> by simp
    next
      case False
      then have "c \<in> set cs" using "2.prems" True by auto
      then have "c \<in> set [] \<union> set (dropWhile is_space cs)"
        using "2.prems"(2) by (simp add: in_dropWhile)
      then have "\<exists>p \<in> set (split_from [] (dropWhile is_space cs)). c \<in> set p"
        using True "2.IH"(1) "2.prems"(2) by blast
      then show ?thesis using True by auto
    qed
  next
    case False
    have "c \<in> set (c0 # cur) \<union> set cs" using "2.prems"(1) by auto
    then have "\<exists>p \<in> set (split_from (c0 # cur) cs). c \<in> set p"
      using False "2.IH"(2) "2.prems"(2) by blast
    then show ?thesis using False by auto
  qed
qed

lemma split_sentences_units: "split_sentences text = sentence_units text"
  by (simp add: split_sentences_def sentence_units_def filter_map o_def)

lemma units_nonempty:
  assumes "c \<in> set t" "\<not> is_space c"
  shows "sentence_units t \<noteq> []"
proof -
  obtain p where p: "p \<in> set (split_from [] t)" "c \<in> set p"
    using split_from_keeps_char [of c "[]" t] assms by auto
  then have "py_strip p \<noteq> []" using assms(2) by (auto simp: py_strip_empty_iff)
  then have "py_strip p \<in> set (sentence_units t)"
    using p(1) by (simp add: sentence_units_def re_split_sentences_def)
  then show ?thesis by auto
qed

lemma keep_unseen_nonempty: "us \<noteq> [] \<Longrightarrow> keep_unseen {} us \<noteq> []"
  by (cases us) auto

lemma join_nonempty: "ks \<noteq> [] \<Longrightarrow> hd ks \<noteq> [] \<Longrightarrow> join sep ks \<noteq> []"
  by (induction sep ks rule: join.induct) auto

lemma dedup_nonempty:
  assumes "c \<in> set t" "\<not> is_space c"
  shows "deduplicate_sentences t \<noteq> []"
proof -
  let ?ks = "keep_unseen {} (sentence_units t)"
  have ne: "?ks \<noteq> []" using assms units_nonempty keep_unseen_nonempty by blast
  then have "hd ?ks \<in> set (sentence_units t)" using keep_unseen_set hd_in_set by blast
  then have "hd ?ks \<noteq> []" using units_trimmed_nosplit by (auto simp: trimmed_def)
  then show ?thesis using ne by (simp add: deduplicate_units join_nonempty)
qed

lemma join_has_first_char:
  "ks \<noteq> [] \<Longrightarrow> hd ks \<noteq> [] \<Longrightarrow> hd (hd ks) \<in> set (join sep ks)"
  by (induction sep ks rule: join.induct) auto

lemma dedup_join_trimmed_nonempty:
  assumes "ks \<noteq> []" "trimmed (hd ks)"
  shows "deduplicate_sentences (join '' '' ks) \<noteq> []"
  using assms dedup_nonempty [of "hd (hd ks)" "join '' '' ks"] join_has_first_char [of ks]
  by (simp add: trimmed_def)

lemma select_loop_extends: "\<exists>r. select_loop mx cs sel tot = sel @ r"
proof (induction cs arbitrary: sel tot)
  case Nil
  show ?case by simp
next
  case (Cons a cs)
  obtain score s where a: "a = (score, s)" by (cases a)
  show ?case
    unfolding a using Cons.IH [of "sel @ [s]" "tot + word_count s"] Cons.IH [of sel tot]
    by (auto simp: Let_def)
qed

lemma select_loop_nonempty: "cs \<noteq> [] \<Longrightarrow> select_loop mx cs [] 0 \<noteq> []"
proof (cases cs)
  case Nil
  assume "cs \<noteq> []"
  with Nil show ?thesis by simp
next
  case (Cons a rest)
  obtain score s where a: "a = (score, s)" by (cases a)
  obtain r where "select_loop mx rest [s] (word_count s) = [s] @ r"
    using select_loop_extends by blast
  then show ?thesis unfolding Cons a by (simp add: Let_def)
qed

lemma select_loop_set:
  "set (select_loop mx cs sel tot) \<subseteq> set sel \<union> snd ` set cs"
proof (induction cs arbitrary: sel tot)
  case Nil
  show ?case by simp
next
  case (Cons a cs)
  obtain score s where a: "a = (score, s)" by (cases a)
  show ?case
    unfolding a using Cons.IH [of "sel @ [s]" "tot + word_count s"] Cons.IH [of sel tot]
    by (auto simp: Let_def)
qed

lemma score_loop_set: "snd ` set (score_loop sc freq ss) \<subseteq> set ss"
  by (induction ss) (auto simp: Let_def)

lemma set_py_sort_desc: "set (py_sort_desc xs) = set xs"
  by (simp add: py_sort_desc_def)

lemma selected_are_sentences:
  "set (extractive_selected_by sc text mx) \<subseteq> set (split_sentences text)"
proof -
  have "set (extractive_selected_by sc text mx) \<subseteq> snd ` set (sentence_scores_by sc text)"
    using select_loop_set [of mx "py_sort_desc (sentence_scores_by sc text)" "[]" 0]
    by (simp add: extractive_selected_by_def sorted_scores_by_def set_py_sort_desc)
  then show ?thesis
    using score_loop_set [of sc "word_frequencies text" "split_sentences text"]
    by (auto simp: sentence_scores_by_def)
qed

lemma sentences_trimmed: "s \<in> set (split_sentences text) \<Longrightarrow> trimmed s \<and> nosplit s"
  by (simp add: split_sentences_units units_trimmed_nosplit)

lemma extractive_by_nonempty:
  assumes "split_sentences text \<noteq> []"
  shows "summarize_extractive_by sc text min_length max_length \<noteq> []"
proof -
  let ?sents = "split_sentences text"
  let ?sel = "extractive_selected_by sc text max_length"
  let ?sel' = "if ?sel = [] then take 3 ?sents else ?sel"
  have ne: "?sel' \<noteq> []" using assms by simp
  have "set ?sel' \<subseteq> set ?sents"
    using selected_are_sentences [of sc "text" max_length] set_take_subset [of 3 "?sents"] by auto
  then have "hd ?sel' \<in> set ?sents" using ne hd_in_set by blast
  then have "trimmed (hd ?sel')" using sentences_trimmed by blast
  then have "deduplicate_sentences (join '' '' ?sel') \<noteq> []"
    using ne by (rule dedup_join_trimmed_nonempty [rotated])
  then show ?thesis using assms by (simp add: summarize_extractive_by_def Let_def)
qed

section \<open>The selection loop\<close>

lemma runs_nonempty: "(cur \<noteq> [] \<or> (\<exists>c \<in> set s. P c)) \<Longrightarrow> runs P cur s \<noteq> []"
  by (induction s arbitrary: cur) auto

lemma word_count_trimmed: "trimmed s \<Longrightarrow> 1 \<le> word_count s"
proof -
  assume "trimmed s"
  then have "\<exists>c \<in> set s. \<not> is_space c" by (auto simp: trimmed_def intro: bexI [of _ "hd s"])
  then have "py_split s \<noteq> []" by (simp add: py_split_def runs_nonempty)
  then show ?thesis by (cases "py_split s") (auto simp: word_count_def)
qed

lemma total_words_nonneg: "0 \<le> total_words xs"
  by (induction xs) (auto simp: total_words_def word_count_def)

lemma total_words_snoc: "total_words (xs @ [s]) = total_words xs + word_count s"
  by (simp add: total_words_def)

lemma total_words_pos: "xs \<noteq> [] \<Longrightarrow> \<forall>s \<in> set xs. 1 \<le> word_count s \<Longrightarrow> 1 \<le> total_words xs"
proof (cases xs)
  case Nil
  assume "xs \<noteq> []"
  with Nil show ?thesis by simp
next
  case (Cons a as)
  assume "\<forall>s \<in> set xs. 1 \<le> word_count s"
  then have "1 \<le> word_count a" using Cons by simp
  moreover have "total_words xs = word_count a + total_words as"
    using Cons by (simp add: total_words_def)
  ultimately show ?thesis using total_words_nonneg [of as] by simp
qed

lemma within_budget_snoc:
  assumes "within_budget mx xs"
    and "xs \<noteq> [] \<longrightarrow> total_words xs < mx \<and> total_words xs + word_count s \<le> mx"
  shows "within_budget mx (xs @ [s])"
  unfolding within_budget_def
proof (intro allI impI)
  fix i assume i: "0 < i \<and> i < length (xs @ [s])"
  show "total_words (take i (xs @ [s])) < mx \<and> total_words (take (Suc i) (xs @ [s])) \<le> mx"
  proof (cases "i < length xs")
    case True
    then show ?thesis using assms(1) i by (simp add: within_budget_def)
  next
    case False
    then have "i = length xs" using i by simp
    then show ?thesis using assms(2) i by (simp add: total_words_snoc)
  qed
qed

lemma select_loop_within_budget:
  assumes "tot = total_words sel"
    and "\<forall>c \<in> set cs. 1 \<le> word_count (snd c)"
    and "\<forall>s \<in> set sel. 1 \<le> word_count s"
    and "tot < mx \<or> sel = []"
    and "within_budget mx sel"
  shows "within_budget mx (select_loop mx cs sel tot)"
  using assms
proof (induction cs arbitrary: sel tot)
  case Nil
  then show ?case by simp
next
  case (Cons a cs)
  obtain score s where a: "a = (score, s)" by (cases a)
  have w: "1 \<le> word_count s" using Cons.prems(2) a by simp
  have cs: "\<forall>c \<in> set cs. 1 \<le> word_count (snd c)" using Cons.prems(2) by simp
  show ?case
  proof (cases "tot + word_count s \<le> mx \<or> tot = 0")
    case True
    have pos: "sel \<noteq> [] \<longrightarrow> 1 \<le> tot"
      using Cons.prems(1,3) total_words_pos by blast
    have fit: "sel \<noteq> [] \<longrightarrow> total_words sel < mx \<and> total_words sel + word_count s \<le> mx"
      using True pos Cons.prems(1,4) by auto
    have wb: "within_budget mx (sel @ [s])"
      using Cons.prems(5) fit by (rule within_budget_snoc)
    show ?thesis
    proof (cases "mx \<le> tot + word_count s")
      case True
      then show ?thesis using \<open>tot + word_count s \<le> mx \<or> tot = 0\<close> wb a by (simp add: Let_def)
    next
      case False
      have "within_budget mx (select_loop mx cs (sel @ [s]) (tot + word_count s))"
      proof (rule Cons.IH)
        show "tot + word_count s = total_words (sel @ [s])"
          using Cons.prems(1) by (simp add: total_words_snoc)
        show "\<forall>c \<in> set cs. 1 \<le> word_count (snd c)" by (rule cs)
        show "\<forall>s \<in> set (sel @ [s]). 1 \<le> word_count s" using Cons.prems(3) w by simp
        show "tot + word_count s < mx \<or> sel @ [s] = []" using False by simp
        show "within_budget mx (sel @ [s])" by (rule wb)
      qed
      then show ?thesis using True False a by (simp add: Let_def)
    qed
  next
    case False
    then have lt: "tot < mx" using Cons.prems(1,4) by (auto simp: total_words_def)
    have "within_budget mx (select_loop mx cs sel tot)"
      using Cons.prems(1) cs Cons.prems(3) Cons.prems(4) Cons.prems(5) by (rule Cons.IH)
    then show ?thesis using False lt a by (simp add: Let_def)
  qed
qed

lemma select_loop_subseq: "\<exists>r. select_loop mx cs sel tot = sel @ r \<and> subseq r (map snd cs)"
proof (induction cs arbitrary: sel tot)
  case Nil
  show ?case by simp
next
  case (Cons a cs)
  obtain score s where a: "a = (score, s)" by (cases a)
  obtain r1 where r1: "select_loop mx cs (sel @ [s]) (tot + word_count s) = (sel @ [s]) @ r1"
      "subseq r1 (map snd cs)" using Cons.IH by blast
  obtain r2 where r2: "select_loop mx cs sel tot = sel @ r2" "subseq r2 (map snd cs)"
    using Cons.IH by blast
  have s1: "subseq (s # r1) (map snd (a # cs))" using r1(2) a by simp
  have s2: "subseq r2 (map snd (a # cs))" using r2(2) a by (auto intro: list_emb_Cons)

  have s3: "subseq [s] (map snd (a # cs))" using a by simp
  have s4: "subseq [] (map snd (a # cs))" by simp
  show ?case
    unfolding a using r1(1) r2(1) s1 s2 s3 s4 a
    by (auto simp: Let_def)
qed

lemma select_loop_first:
  "select_loop mx ((score, s) # cs) [] 0 \<noteq> [] \<and> hd (select_loop mx ((score, s) # cs) [] 0) = s"
proof -
  obtain r where "select_loop mx cs [s] (word_count s) = [s] @ r"
    using select_loop_subseq [of mx cs "[s]" "word_count s"] by auto
  then show ?thesis by (simp add: Let_def)
qed

lemma py_sort_desc_sorted: "sorted (rev (map fst (py_sort_desc xs)))"
  by (simp add: py_sort_desc_def rev_map)

lemma runs_append_sep:
  "\<not> P c \<Longrightarrow> runs P cur (a @ c # b) = runs P cur a @ runs P [] b"
  by (induction a arbitrary: cur) auto

lemma runs_skip_leading: "\<forall>c \<in> set a. \<not> P c \<Longrightarrow> runs P [] (a @ m) = runs P [] m"
  by (induction a) auto

lemma runs_skip_trailing: "\<forall>c \<in> set b. \<not> P c \<Longrightarrow> runs P cur (m @ b) = runs P cur m"
proof (induction m arbitrary: cur)
  case Nil
  then show ?case
  proof (induction b arbitrary: cur)
    case Nil
    show ?case by simp
  next
    case (Cons c b)
    have "runs P [] b = runs P [] []" using Cons.IH [of "[]"] Cons.prems by simp
    then show ?case using Cons.prems by simp
  qed
next
  case (Cons c m)
  then show ?case by simp
qed

lemma py_strip_decomp_spaces:
  "\<exists>a b. s = a @ py_strip s @ b \<and> (\<forall>c \<in> set a. is_space c) \<and> (\<forall>c \<in> set b. is_space c)"
proof -
  let ?t = "dropWhile is_space s"
  have 1: "s = takeWhile is_space s @ ?t" by simp
  have "rev ?t = takeWhile is_space (rev ?t) @ dropWhile is_space (rev ?t)" by simp
  then have "?t = rev (dropWhile is_space (rev ?t)) @ rev (takeWhile is_space (rev ?t))"
    by (metis rev_append rev_rev_ident)
  then have "s = takeWhile is_space s @ py_strip s @ rev (takeWhile is_space (rev ?t))"
    using 1 by (simp add: py_strip_def)
  moreover have "\<forall>c \<in> set (takeWhile is_space s). is_space c"
    by (auto dest: set_takeWhileD)
  moreover have "\<forall>c \<in> set (rev (takeWhile is_space (rev ?t))). is_space c"
    by (auto dest: set_takeWhileD)
  ultimately show ?thesis by blast
qed

lemma py_split_py_strip: "py_split (py_strip s) = py_split s"
proof -
  obtain a b where d: "s = a @ py_strip s @ b"
    and a: "\<forall>c \<in> set a. is_space c" and b: "\<forall>c \<in> set b. is_space c"
    using py_strip_decomp_spaces by blast
  have "py_split (a @ py_strip s @ b) = py_split (py_strip s @ b)"
    unfolding py_split_def using a by (intro runs_skip_leading) simp
  also have "\<dots> = py_split (py_strip s)"
    unfolding py_split_def using b by (intro runs_skip_trailing) simp
  finally show ?thesis using d by simp
qed

lemma py_split_append_blank: "py_split (a @ CHR '' '' # b) = py_split a @ py_split b"
  unfolding py_split_def by (rule runs_append_sep) (simp add: is_space_blank)

lemma word_count_append_blank:
  "word_count (a @ CHR '' '' # b) = word_count a + word_count b"
  by (simp add: word_count_def py_split_append_blank)

lemma word_count_nonneg: "0 \<le> word_count s"
  by (simp add: word_count_def)

lemma word_count_join: "word_count (join '' '' ks) = total_words ks"
proof (induction "'' ''" ks rule: join.induct)
  case 1
  show ?case by (simp add: total_words_def word_count_def py_split_def)
next
  case (2 x)
  show ?case by (simp add: total_words_def)
next
  case (3 x y ys)
  then show ?case by (simp add: total_words_def word_count_append_blank)
qed

lemma split_from_first_piece:
  "\<exists>x. hd (split_from cur r) = rev cur @ x \<and> (x = [] \<or> (r \<noteq> [] \<and> hd x = hd r))"
proof (induction cur r rule: split_from.induct)
  case (1 cur)
  show ?case by simp
next
  case (2 cur c cs)
  show ?case
  proof (cases "is_space c \<and> cur \<noteq> [] \<and> is_terminator (hd cur)")
    case True
    then show ?thesis by simp
  next
    case False
    then obtain x where "hd (split_from (c # cur) cs) = rev (c # cur) @ x"
      using "2.IH"(2) by blast
    then have "hd (split_from cur (c # cs)) = rev cur @ (c # x)" using False by simp
    then show ?thesis by (metis list.sel(1) list.distinct(1))
  qed
qed

lemma join_hd_decomp:
  "ks \<noteq> [] \<Longrightarrow> \<exists>rest. join '' '' ks = hd ks @ rest \<and> (rest = [] \<or> hd rest = CHR '' '')"
  by (induction "'' ''" ks rule: join.induct) auto

lemma dedup_join_word_count:
  assumes ne: "ks \<noteq> []" and ok: "trimmed (hd ks)" "nosplit (hd ks)"
  shows "word_count (hd ks) \<le> word_count (deduplicate_sentences (join '' '' ks))"
proof -
  let ?t = "join '' '' ks"
  let ?ps = "split_from [] ?t"
  obtain rest where t: "?t = hd ks @ rest" and rest: "rest = [] \<or> hd rest = CHR '' ''"
    using join_hd_decomp [OF ne] by blast
  have "?ps = split_from (rev (hd ks)) rest"
    using split_from_absorb [of "[]" "hd ks" rest] ok(2) t by simp
  then obtain x where p: "hd ?ps = hd ks @ x" and x: "x = [] \<or> (rest \<noteq> [] \<and> hd x = hd rest)"
    using split_from_first_piece [of "rev (hd ks)" rest] by auto
  have wx: "word_count (hd ks) \<le> word_count (hd ks @ x)"
  proof (cases x)
    case Nil
    then show ?thesis by simp
  next
    case (Cons c x')
    then have "c = CHR '' ''" using rest x by auto
    then show ?thesis
      using Cons word_count_append_blank [of "hd ks" x'] word_count_nonneg [of x'] by simp
  qed
  have "hd (hd ks) \<in> set (hd ?ps)" using p ok(1) by (simp add: trimmed_def)
  then have sne: "py_strip (hd ?ps) \<noteq> []"
    using ok(1) by (auto simp: py_strip_empty_iff trimmed_def)
  obtain p1 ps' where ps: "?ps = p1 # ps'" using split_from_ne [of "[]" ?t] by (cases ?ps) auto
  then have "sentence_units ?t = py_strip p1 # filter (\<lambda>u. u \<noteq> []) (map py_strip ps')"
    using sne by (simp add: sentence_units_def re_split_sentences_def)
  then obtain us where us: "keep_unseen {} (sentence_units ?t) = py_strip p1 # us"
    by simp
  have "word_count (deduplicate_sentences ?t) = total_words (py_strip p1 # us)"
    using us by (simp add: deduplicate_units word_count_join)
  also have "\<dots> = word_count (py_strip p1) + total_words us"
    by (simp add: total_words_def)
  finally have "word_count (py_strip p1) \<le> word_count (deduplicate_sentences ?t)"
    using total_words_nonneg [of us] by simp
  moreover have "word_count (py_strip p1) = word_count (hd ks @ x)"
    using p ps by (simp add: word_count_def py_split_py_strip)
  ultimately show ?thesis using wx by simp
qed

lemma candidates_word_count:
  "c \<in> set (sorted_scores_by sc text) \<Longrightarrow> 1 \<le> word_count (snd c)"
proof -
  assume "c \<in> set (sorted_scores_by sc text)"
  then have "snd c \<in> snd ` set (score_loop sc (word_frequencies text) (split_sentences text))"
    by (simp add: sorted_scores_by_def set_py_sort_desc sentence_scores_by_def)
  then have "snd c \<in> set (split_sentences text)" using score_loop_set by blast
  then show ?thesis using sentences_trimmed word_count_trimmed by blast
qed

lemma select_loop_accepted:
  "0 \<le> tot \<Longrightarrow> t \<in> set (select_loop mx cs sel tot) \<Longrightarrow> t \<notin> set sel
     \<Longrightarrow> tot + word_count t \<le> mx \<or> tot = 0"
proof (induction cs arbitrary: sel tot)
  case Nil
  then show ?case by simp
next
  case (Cons a cs)
  obtain score s where a: "a = (score, s)" by (cases a)
  have w: "0 \<le> word_count s" by (rule word_count_nonneg)
  show ?case
  proof (cases "tot + word_count s \<le> mx \<or> tot = 0")
    case True
    show ?thesis
    proof (cases "t = s")
      case True
      then show ?thesis using \<open>tot + word_count s \<le> mx \<or> tot = 0\<close> by simp
    next
      case False
      show ?thesis
      proof (cases "tot + word_count s \<ge> mx")
        case True
        then have "select_loop mx (a # cs) sel tot = sel @ [s]"
          using \<open>tot + word_count s \<le> mx \<or> tot = 0\<close> by (auto simp: a Let_def)
        then show ?thesis using Cons.prems False by simp
      next
        case False
        then have "select_loop mx (a # cs) sel tot
            = select_loop mx cs (sel @ [s]) (tot + word_count s)"
          using \<open>tot + word_count s \<le> mx \<or> tot = 0\<close> by (auto simp: a Let_def)
        then have "t \<in> set (select_loop mx cs (sel @ [s]) (tot + word_count s))"
          using Cons.prems by simp
        moreover have "t \<notin> set (sel @ [s])" using Cons.prems \<open>t \<noteq> s\<close> by simp
        moreover have "0 \<le> tot + word_count s" using Cons.prems w by simp
        ultimately have "tot + word_count s + word_count t \<le> mx \<or> tot + word_count s = 0"
          using Cons.IH by blast
        then show ?thesis using w Cons.prems(1) by auto
      qed
    qed
  next
    case False
    show ?thesis
    proof (cases "tot \<ge> mx")
      case True
      then have "select_loop mx (a # cs) sel tot = sel"
        using False by (auto simp: a Let_def)
      then show ?thesis using Cons.prems by simp
    next
      case ntot: False
      then have "select_loop mx (a # cs) sel tot = select_loop mx cs sel tot"
        using False by (auto simp: a Let_def)
      then show ?thesis using Cons.prems Cons.IH by simp
    qed
  qed
qed

lemma select_loop_skipped:
  "0 \<le> tot \<Longrightarrow> distinct (map snd cs) \<Longrightarrow> i < j \<Longrightarrow> j < length cs
     \<Longrightarrow> snd (cs ! j) \<in> set (select_loop mx cs sel tot) \<Longrightarrow> snd (cs ! j) \<notin> set sel
     \<Longrightarrow> snd (cs ! i) \<notin> set (select_loop mx cs sel tot)
     \<Longrightarrow> word_count (snd (cs ! j)) < word_count (snd (cs ! i))"
proof (induction cs arbitrary: sel tot i j)
  case Nil
  then show ?case by simp
next
  case (Cons a cs)
  obtain score s where a: "a = (score, s)" by (cases a)
  let ?t = "snd ((a # cs) ! j)"
  have w: "0 \<le> word_count s" by (rule word_count_nonneg)
  obtain j' where j: "j = Suc j'" using Cons.prems(3) by (cases j) auto
  have tj: "?t = snd (cs ! j')" "j' < length cs" using j Cons.prems(4) by auto
  have "snd (cs ! j') \<in> set (map snd cs)" using tj(2) by simp
  moreover have "s \<notin> set (map snd cs)" using Cons.prems(2) a by simp
  ultimately have ts: "?t \<noteq> s" using tj(1) by metis
  show ?case
  proof (cases "tot + word_count s \<le> mx \<or> tot = 0")
    case acc: True
    obtain r where "select_loop mx cs (sel @ [s]) (tot + word_count s) = (sel @ [s]) @ r"
      using select_loop_extends by blast
    then have sin: "s \<in> set (select_loop mx (a # cs) sel tot)"
      using acc by (auto simp: a Let_def)
    then obtain i' where i: "i = Suc i'" using Cons.prems(7) a by (cases i) auto
    show ?thesis
    proof (cases "tot + word_count s \<ge> mx")
      case True
      then have "select_loop mx (a # cs) sel tot = sel @ [s]"
        using acc by (auto simp: a Let_def)
      then show ?thesis using Cons.prems(5,6) ts by simp
    next
      case False
      then have e: "select_loop mx (a # cs) sel tot
          = select_loop mx cs (sel @ [s]) (tot + word_count s)"
        using acc by (auto simp: a Let_def)
      have "word_count (snd (cs ! j')) < word_count (snd (cs ! i'))"
      proof (rule Cons.IH)
        show "0 \<le> tot + word_count s" using Cons.prems(1) w by simp
        show "distinct (map snd cs)" using Cons.prems(2) by simp
        show "i' < j'" using Cons.prems(3) i j by simp
        show "j' < length cs" by (rule tj(2))
        show "snd (cs ! j') \<in> set (select_loop mx cs (sel @ [s]) (tot + word_count s))"
          using Cons.prems(5) e j by simp
        show "snd (cs ! j') \<notin> set (sel @ [s])" using Cons.prems(6) ts j by simp
        show "snd (cs ! i') \<notin> set (select_loop mx cs (sel @ [s]) (tot + word_count s))"
          using Cons.prems(7) e i by simp
      qed
      then show ?thesis using i j by simp
    qed
  next
    case rej: False
    show ?thesis
    proof (cases "tot \<ge> mx")
      case True
      then have "select_loop mx (a # cs) sel tot = sel"
        using rej by (auto simp: a Let_def)
      then show ?thesis using Cons.prems(5,6) by simp
    next
      case False
      then have e: "select_loop mx (a # cs) sel tot = select_loop mx cs sel tot"
        using rej by (auto simp: a Let_def)
      show ?thesis
      proof (cases i)
        case 0
        have "snd (cs ! j') \<in> set (select_loop mx cs sel tot)"
          using Cons.prems(5) e j by simp
        moreover have "snd (cs ! j') \<notin> set sel" using Cons.prems(6) j by simp
        ultimately have "tot + word_count (snd (cs ! j')) \<le> mx \<or> tot = 0"
          using select_loop_accepted [OF Cons.prems(1)] by blast
        then have "tot + word_count (snd (cs ! j')) \<le> mx" using rej by blast
        then have "word_count (snd (cs ! j')) < word_count s" using rej by simp
        then show ?thesis using 0 j a by simp
      next
        case (Suc i')
        have "word_count (snd (cs ! j')) < word_count (snd (cs ! i'))"
        proof (rule Cons.IH)
          show "0 \<le> tot" by (rule Cons.prems(1))
          show "distinct (map snd cs)" using Cons.prems(2) by simp
          show "i' < j'" using Cons.prems(3) Suc j by simp
          show "j' < length cs" by (rule tj(2))
          show "snd (cs ! j') \<in> set (select_loop mx cs sel tot)"
            using Cons.prems(5) e j by simp
          show "snd (cs ! j') \<notin> set sel" using Cons.prems(6) j by simp
          show "snd (cs ! i') \<notin> set (select_loop mx cs sel tot)"
            using Cons.prems(7) e Suc by simp
        qed
        then show ?thesis using Suc j by simp
      qed
    qed
  qed
qed

section \<open>Frequencies and scores\<close>





lemma score_loop_map:
  "score_loop sc freq ss =
     map (\<lambda>s. (sc (sum_list (map (freq_get freq) (word_tokens s))) (length (word_tokens s)), s))
       (filter (\<lambda>s. word_tokens s \<noteq> []) ss)"
  by (induction ss) (auto simp: Let_def word_tokens_def)

lemma score_loop_Pair:
  "score_loop sc freq ss = map (\<lambda>c. (sc (fst (fst c)) (snd (fst c)), snd c)) (score_loop Pair freq ss)"
  by (induction ss) (simp_all add: Let_def)

lemma sentence_scores_by_Pair:
  "sentence_scores_by sc text
     = map (\<lambda>c. (sc (fst (fst c)) (snd (fst c)), snd c)) (sentence_scores_by Pair text)"
  unfolding sentence_scores_by_def by (rule score_loop_Pair)

section \<open>The chunk loop of the abstractive summarizer\<close>

lemma upt_0_Suc_map: "[0 ..< Suc n] = 0 # map Suc [0 ..< n]"
  by (simp add: upt_conv_Cons map_Suc_upt del: upt_Suc)

lemma chunk_loop_closed:
  "chunk_loop wd mn mx nb nr lp cs outs st =
     (outs @ map (\<lambda>k. case respond wd
                          (calls st @ map (\<lambda>c. PipeCall (chunk_args mn mx nb nr lp c)) (take k cs))
                          (PipeCall (chunk_args mn mx nb nr lp (cs ! k))) of
                        Inr res \<Rightarrow> py_strip res
                      | Inl e \<Rightarrow> chunk_fallback (cs ! k)) [0 ..< length cs],
      st\<lparr>calls := calls st @ map (\<lambda>c. PipeCall (chunk_args mn mx nb nr lp c)) cs\<rparr>)"
proof (induction cs arbitrary: outs st)
  case Nil
  show ?case by simp
next
  case (Cons c cs)
  let ?req = "\<lambda>c. PipeCall (chunk_args mn mx nb nr lp c)"
  let ?st' = "st\<lparr>calls := calls st @ [?req c]\<rparr>"
  let ?out = "case respond wd (calls st) (?req c) of
                Inr res \<Rightarrow> py_strip res | Inl e \<Rightarrow> chunk_fallback c"
  have step: "chunk_loop wd mn mx nb nr lp (c # cs) outs st
      = chunk_loop wd mn mx nb nr lp cs (outs @ [?out]) ?st'"
    by (cases "respond wd (calls st) (?req c)") (simp_all add: call_backend_def)
  have e: "[0 ..< length (c # cs)] = 0 # map Suc [0 ..< length cs]"
    using upt_0_Suc_map [of "length cs"] by simp
  show ?case
    unfolding step Cons.IH e
    by (simp add: o_def split: sum.split)
qed

lemma py_slice_first_two: "py_slice xs 0 2 = take 2 xs"
  by (cases "2 \<le> length xs") (simp_all add: py_slice_def Let_def min_def)

lemma chunk_outputs_closed:
  "chunk_outputs wd mn mx nb nr lp cs st =
     map (\<lambda>k. case chunk_response wd mn mx nb nr lp cs st k of
                 Inr res \<Rightarrow> py_strip res
               | Inl e \<Rightarrow> chunk_fallback (cs ! k)) [0 ..< length cs]"
  by (simp add: chunk_outputs_def chunk_loop_closed chunk_response_def chunk_requests_def)

lemma chunk_loop_calls:
  "calls (snd (chunk_loop wd mn mx nb nr lp cs outs st))
     = calls st @ chunk_requests mn mx nb nr lp cs"
  by (simp add: chunk_loop_closed chunk_requests_def)

lemma chunk_outputs_all_fail:
  assumes "\<forall>h a. isl (respond wd h (PipeCall a))"
  shows "chunk_outputs wd mn mx nb nr lp cs st = map chunk_fallback cs"
proof -
  have "(case chunk_response wd mn mx nb nr lp cs st k of
           Inr res \<Rightarrow> py_strip res | Inl e \<Rightarrow> chunk_fallback (cs ! k)) = chunk_fallback (cs ! k)" for k
  proof -
    obtain e where "chunk_response wd mn mx nb nr lp cs st k = Inl e"
      using assms unfolding chunk_response_def isl_def by blast
    then show ?thesis by simp
  qed
  then have "chunk_outputs wd mn mx nb nr lp cs st = map (\<lambda>k. chunk_fallback (cs ! k)) [0 ..< length cs]"
    by (simp add: chunk_outputs_closed)
  also have "\<dots> = map chunk_fallback (map (\<lambda>k. cs ! k) [0 ..< length cs])" by (simp add: o_def)
  also have "\<dots> = map chunk_fallback cs" by (simp add: map_nth)
  finally show ?thesis .
qed

lemma transformers_returns:
  assumes "fst (get_transformer_pipeline wd st) = Inr ()"
  shows "\<exists>s. fst (summarize_abstractive_transformers wd text mn mx nb nr lp st) = Inr s"
proof -
  obtain st1 where g: "get_transformer_pipeline wd st = (Inr (), st1)"
    using assms by (cases "get_transformer_pipeline wd st") auto
  obtain outs st2 where l: "chunk_loop wd mn mx nb nr lp (chunk_text text 450 60) [] st1 = (outs, st2)"
    by (cases "chunk_loop wd mn mx nb nr lp (chunk_text text 450 60) [] st1") auto
  show ?thesis
    unfolding summarize_abstractive_transformers_def g l
    by (simp add: Let_def split: prod.split sum.split)
qed

lemma transformers_all_fail:
  assumes "fst (get_transformer_pipeline wd st) = Inr ()"
    and "\<forall>h a. isl (respond wd h (PipeCall a))"
  shows "fst (summarize_abstractive_transformers wd text mn mx nb nr lp st)
     = Inr (deduplicate_sentences
         (join [CHR 0x0A, CHR 0x0A] (map chunk_fallback (chunk_text text 450 60))))"
proof -
  obtain st1 where g: "get_transformer_pipeline wd st = (Inr (), st1)"
    using assms(1) by (cases "get_transformer_pipeline wd st") auto
  obtain outs st2 where l: "chunk_loop wd mn mx nb nr lp (chunk_text text 450 60) [] st1 = (outs, st2)"
    by (cases "chunk_loop wd mn mx nb nr lp (chunk_text text 450 60) [] st1") auto
  have "outs = chunk_outputs wd mn mx nb nr lp (chunk_text text 450 60) st1"
    by (simp add: chunk_outputs_def l)
  then have o: "outs = map chunk_fallback (chunk_text text 450 60)"
    using chunk_outputs_all_fail [OF assms(2)] by simp
  obtain e where r: "respond wd (calls st2)
      (PipeCall \<lparr>pa_text = join [CHR 0x0A, CHR 0x0A] outs, pa_min_length = mn,
         pa_max_length = mx, pa_num_beams = max 4 nb, pa_no_repeat_ngram_size = nr,
         pa_length_penalty = lp\<rparr>) = Inl e"
    using assms(2) unfolding isl_def by blast
  have "fst (summarize_abstractive_transformers wd text mn mx nb nr lp st)
      = Inr (deduplicate_sentences (join [CHR 0x0A, CHR 0x0A] outs))"
    by (simp add: summarize_abstractive_transformers_def g l Let_def call_backend_def r)
  then show ?thesis by (simp add: o)
qed

text \<open>
  C1: when the text has at least one sentence after splitting and trimming, the extractive
  summary is not the empty string, whatever the scores are; when no sentence has a word
  token, the summary is built from the first three sentences in their order.
\<close>

theorem extractive_summary_nonempty:
  assumes "split_sentences text \<noteq> []"
  shows "summarize_extractive_by sc text min_length max_length \<noteq> [] \<and>
         summarize_extractive fdiv fpow text min_length max_length \<noteq> [] \<and>
         (sentence_scores_by sc text = [] \<longrightarrow>
            summarize_extractive_by sc text min_length max_length =
              deduplicate_sentences (join '' '' (take 3 (split_sentences text))))"
proof -
  have a: "summarize_extractive_by sc text min_length max_length \<noteq> []"
    using assms by (rule extractive_by_nonempty)
  have b: "summarize_extractive fdiv fpow text min_length max_length \<noteq> []"
    unfolding summarize_extractive_def using assms by (rule extractive_by_nonempty)
  have c: "summarize_extractive_by sc text min_length max_length =
      deduplicate_sentences (join '' '' (take 3 (split_sentences text)))"
    if "sentence_scores_by sc text = []"
    using that assms
    by (simp add: summarize_extractive_by_def extractive_selected_by_def sorted_scores_by_def
        py_sort_desc_def Let_def)
  show ?thesis using a b c by blast
qed

theorem extractive_summary_nonempty_witness:
  "split_sentences ''... !!! ??? ---'' = [''...'', ''!!!'', ''???'', ''---''] \<and>
   sentence_scores_by (\<lambda>a n. a) ''... !!! ??? ---'' = [] \<and>
   summarize_extractive_by (\<lambda>a n. a) ''... !!! ??? ---'' 5 10 = ''... !!! ???'' \<and>
   summarize_extractive (\<lambda>a x. a + x) (\<lambda>n. n) ''... !!! ??? ---'' 5 10 \<noteq> []"
proof -
  have u: "split_sentences ''... !!! ??? ---'' = [''...'', ''!!!'', ''???'', ''---'']"
    by code_simp
  have s: "sentence_scores_by (\<lambda>a n. a) ''... !!! ??? ---'' = ([] :: (nat \<times> string) list)"
    by code_simp
  have d: "deduplicate_sentences (join '' '' (take 3 [''...'', ''!!!'', ''???'', ''---''])) = ''... !!! ???''"
    by code_simp
  have ne: "split_sentences ''... !!! ??? ---'' \<noteq> []" using u by simp
  show ?thesis
    using extractive_summary_nonempty [OF ne, where sc = "\<lambda>a n. a" and fdiv = "\<lambda>a x. a + x" and fpow = "\<lambda>n. n"
        and min_length = 5 and max_length = 10] u s d by simp
qed

text \<open>
  C2: the selected sentences follow the candidates in descending score order; the first
  candidate is always taken; every later accepted sentence keeps the running word total
  within \<open>max_length\<close>, and the total before it is below \<open>max_length\<close>. For
  \<open>max_length\<close> of at least 1 the total before the last accepted sentence is below
  \<open>max_length\<close>; for \<open>max_length\<close> of 0 or less exactly the first candidate is taken.
  The total of the selection, and the word count of the summary, are at least the word
  count of the first accepted sentence.
\<close>

theorem selector_budget:
  "subseq (extractive_selected_by sc text mx) (map snd (sorted_scores_by sc text)) \<and>
     sorted (rev (map fst (sorted_scores_by sc text))) \<and>
     (sorted_scores_by sc text \<noteq> [] \<longrightarrow>
        extractive_selected_by sc text mx \<noteq> [] \<and>
        hd (extractive_selected_by sc text mx) = snd (hd (sorted_scores_by sc text))) \<and>
     within_budget mx (extractive_selected_by sc text mx) \<and>
     (1 \<le> mx \<longrightarrow> extractive_selected_by sc text mx \<noteq> [] \<longrightarrow>
        total_words (butlast (extractive_selected_by sc text mx)) < mx) \<and>
     (mx \<le> 0 \<longrightarrow> length (extractive_selected_by sc text mx) \<le> 1) \<and>
     (extractive_selected_by sc text mx \<noteq> [] \<longrightarrow>
        word_count (hd (extractive_selected_by sc text mx))
          \<le> total_words (extractive_selected_by sc text mx) \<and>
        word_count (hd (extractive_selected_by sc text mx))
          \<le> word_count (summarize_extractive_by sc text mn mx))"
proof -
  let ?cs = "sorted_scores_by sc text"
  let ?sel = "extractive_selected_by sc text mx"
  have sel: "?sel = select_loop mx ?cs [] 0" by (simp add: extractive_selected_by_def)
  have a: "subseq ?sel (map snd ?cs)"
    using select_loop_subseq [of mx ?cs "[]" 0] sel by auto
  have b: "sorted (rev (map fst ?cs))" by (simp add: sorted_scores_by_def py_sort_desc_sorted)
  have c: "?sel \<noteq> [] \<and> hd ?sel = snd (hd ?cs)" if cne: "?cs \<noteq> []"
  proof -
    obtain a rest where ar: "?cs = a # rest" using cne by (cases ?cs) auto
    obtain score s where "a = (score, s)" by (cases a)
    then have "?cs = (score, s) # rest" using ar by simp
    then show ?thesis using select_loop_first [of mx score s rest] sel by simp
  qed
  have wb: "within_budget mx ?sel"
    unfolding sel
  proof (rule select_loop_within_budget)
    show "0 = total_words []" by (simp add: total_words_def)
    show "\<forall>c \<in> set ?cs. 1 \<le> word_count (snd c)" using candidates_word_count by blast
    show "\<forall>s \<in> set []. 1 \<le> word_count s" by simp
    show "0 < mx \<or> [] = ([] :: string list)" by simp
    show "within_budget mx []" by (simp add: within_budget_def)
  qed
  have d: "total_words (butlast ?sel) < mx" if "1 \<le> mx" "?sel \<noteq> []"
  proof (cases "length ?sel = 1")
    case True
    then have "butlast ?sel = []" by (cases ?sel) auto
    then show ?thesis using that(1) by (simp add: total_words_def)
  next
    case False
    then have "0 < length ?sel - 1 \<and> length ?sel - 1 < length ?sel"
      using that(2) by (cases ?sel) auto
    then have "total_words (take (length ?sel - 1) ?sel) < mx"
      using wb unfolding within_budget_def by blast
    then show ?thesis by (simp add: butlast_conv_take)
  qed
  have e: "length ?sel \<le> 1" if "mx \<le> 0"
  proof (rule ccontr)
    assume "\<not> length ?sel \<le> 1"
    then have "0 < (1::nat) \<and> 1 < length ?sel" by simp
    then have "total_words (take 1 ?sel) < mx"
      using wb unfolding within_budget_def by blast
    then show False using that total_words_nonneg [of "take 1 ?sel"] by simp
  qed
  have f: "word_count (hd ?sel) \<le> total_words ?sel \<and>
      word_count (hd ?sel) \<le> word_count (summarize_extractive_by sc text mn mx)"
    if ne: "?sel \<noteq> []"
  proof
    obtain s rest where sr: "?sel = s # rest" using ne by (cases ?sel) auto
    then have "total_words ?sel = word_count s + total_words rest" by (simp add: total_words_def)
    then show "word_count (hd ?sel) \<le> total_words ?sel"
      using sr total_words_nonneg [of rest] by simp
    have "hd ?sel \<in> set (split_sentences text)"
      using ne selected_are_sentences [of sc "text" mx] hd_in_set by blast
    then have tn: "trimmed (hd ?sel)" "nosplit (hd ?sel)" using sentences_trimmed by auto
    have "split_sentences text \<noteq> []"
      using ne selected_are_sentences [of sc "text" mx] by auto
    then have "summarize_extractive_by sc text mn mx = deduplicate_sentences (join '' '' ?sel)"
      using ne by (simp add: summarize_extractive_by_def Let_def)
    then show "word_count (hd ?sel) \<le> word_count (summarize_extractive_by sc text mn mx)"
      using dedup_join_word_count [OF ne tn] by simp
  qed
  show ?thesis using a b c wb d e f by blast
qed

theorem selector_budget_witness:
  "extractive_selected_by (\<lambda>a n. a)
     ''Cats are great pets. Cats are independent. Dogs are loyal pets. Dogs need lots of exercise.'' 10
     = [''Cats are great pets.'', ''Dogs are loyal pets.''] \<and>
   map snd (sorted_scores_by (\<lambda>a n. a)
     ''Cats are great pets. Cats are independent. Dogs are loyal pets. Dogs need lots of exercise.'')
     = [''Cats are great pets.'', ''Dogs are loyal pets.'', ''Cats are independent.'',
        ''Dogs need lots of exercise.''] \<and>
   within_budget 10 [''Cats are great pets.'', ''Dogs are loyal pets.''] \<and>
   total_words (butlast [''Cats are great pets.'', ''Dogs are loyal pets.'']) < 10 \<and>
   total_words [''Cats are great pets.'', ''Dogs are loyal pets.''] = 8 \<and>
   word_count ''Cats are great pets.'' \<le> word_count (summarize_extractive_by (\<lambda>a n. a)
     ''Cats are great pets. Cats are independent. Dogs are loyal pets. Dogs need lots of exercise.'' 5 10)"
proof -
  let ?T = "''Cats are great pets. Cats are independent. Dogs are loyal pets. Dogs need lots of exercise.''"
  have sel: "extractive_selected_by (\<lambda>a n. a) ?T 10
      = [''Cats are great pets.'', ''Dogs are loyal pets.'']"
    by code_simp
  have cs: "map snd (sorted_scores_by (\<lambda>a n. a) ?T)
      = [''Cats are great pets.'', ''Dogs are loyal pets.'', ''Cats are independent.'',
         ''Dogs need lots of exercise.'']"
    by code_simp
  have tw: "total_words [''Cats are great pets.'', ''Dogs are loyal pets.''] = 8"
    by code_simp
  show ?thesis
    using selector_budget [of "\<lambda>a n. a" ?T 10 5] sel cs tw by simp
qed

theorem selector_budget_counterexample:
  "\<forall>sc. extractive_selected_by sc ''Cats purr.'' 0 = [''Cats purr.''] \<and>
     \<not> total_words (butlast (extractive_selected_by sc ''Cats purr.'' 0)) < 0"
proof
  fix sc :: "nat \<Rightarrow> nat \<Rightarrow> 'a::linorder"
  have p: "sentence_scores_by Pair ''Cats purr.'' = [((2, 2), ''Cats purr.'')]"
    by code_simp
  have s: "sentence_scores_by sc ''Cats purr.'' = [(sc 2 2, ''Cats purr.'')]"
    by (simp add: sentence_scores_by_Pair [of sc] p)
  have w: "word_count ''Cats purr.'' = 2"
    by code_simp
  have "extractive_selected_by sc ''Cats purr.'' 0 = [''Cats purr.'']"
    by (simp add: extractive_selected_by_def sorted_scores_by_def py_sort_desc_def s w Let_def)
  then show "extractive_selected_by sc ''Cats purr.'' 0 = [''Cats purr.''] \<and>
     \<not> total_words (butlast (extractive_selected_by sc ''Cats purr.'' 0)) < 0"
    by (simp add: total_words_def)
qed



text \<open>
  C4: on a text in which no sentence boundary is a newline, that is, every piece of the
  split but the last ends in a full stop, an exclamation mark or a question mark,
  deduplicating the deduplicator's output gives that output again. Newlines inside the
  white space that follows such a mark are allowed. A newline that itself ends a piece is
  removed by the trimming, so the unit it ended joins the next unit when the output is split
  again; then the second pass may drop a unit that the first pass kept.
\<close>

theorem dedup_idempotent_no_newline_boundary:
  assumes "\<forall>p \<in> set (butlast (re_split_sentences text)). last p \<noteq> CHR 0x0A"
  shows "deduplicate_sentences (deduplicate_sentences text) = deduplicate_sentences text"
proof -
  let ?ks = "keep_unseen {} (sentence_units text)"
  have d: "deduplicate_sentences text = join '' '' ?ks" by (rule deduplicate_units)
  show ?thesis
  proof (cases "?ks = []")
    case True
    then show ?thesis using d dedup_empty by simp
  next
    case False
    have sub: "subseq ?ks (sentence_units text)" by (rule keep_unseen_subseq)
    have ok: "\<forall>k \<in> set ?ks. trimmed k \<and> nosplit k"
      using keep_unseen_set units_trimmed_nosplit by blast
    have he: "\<forall>k \<in> set (butlast ?ks). hard_end k"
      using subseq_butlast [OF sub] units_hard_end [OF assms] by blast
    have di: "distinct (map py_lower ?ks)" by (rule keep_unseen_distinct)
    show ?thesis using dedup_fixed_point [OF False ok he di] d by simp
  qed
qed

theorem dedup_idempotent_no_newline_boundary_witness:
  "re_split_sentences (''First chunk.'' @ CHR 0x0A # CHR 0x0A # ''Second chunk. first chunk.'')
     = [''First chunk.'', ''Second chunk.'', ''first chunk.''] \<and>
   deduplicate_sentences (deduplicate_sentences
       (''First chunk.'' @ CHR 0x0A # CHR 0x0A # ''Second chunk. first chunk.''))
     = deduplicate_sentences (''First chunk.'' @ CHR 0x0A # CHR 0x0A # ''Second chunk. first chunk.'') \<and>
   deduplicate_sentences (''First chunk.'' @ CHR 0x0A # CHR 0x0A # ''Second chunk. first chunk.'')
     = ''First chunk. Second chunk.''"
proof -
  let ?T = "''First chunk.'' @ CHR 0x0A # CHR 0x0A # ''Second chunk. first chunk.''"
  have p: "re_split_sentences ?T = [''First chunk.'', ''Second chunk.'', ''first chunk.'']"
    by code_simp
  have h: "\<forall>p \<in> set (butlast (re_split_sentences ?T)). last p \<noteq> CHR 0x0A"
    unfolding p by simp
  have v: "deduplicate_sentences ?T = ''First chunk. Second chunk.''" by code_simp
  show ?thesis using dedup_idempotent_no_newline_boundary [OF h] p v by simp
qed

theorem dedup_not_idempotent_counterexample:
  "deduplicate_sentences (''a'' @ CHR 0x0A # '' b. c. a b.'') = ''a b. c. a b.'' \<and>
   deduplicate_sentences ''a b. c. a b.'' = ''a b. c.'' \<and>
   deduplicate_sentences (deduplicate_sentences (''a'' @ CHR 0x0A # '' b. c. a b.''))
     \<noteq> deduplicate_sentences (''a'' @ CHR 0x0A # '' b. c. a b.'')"
proof -
  have a: "deduplicate_sentences (''a'' @ CHR 0x0A # '' b. c. a b.'') = ''a b. c. a b.''"
    by code_simp
  have b: "deduplicate_sentences ''a b. c. a b.'' = ''a b. c.''"
    by code_simp
  show ?thesis unfolding a b by simp
qed

text \<open>
  C5: the deduplicator splits the text into units (trimmed, empty ones dropped), keeps a unit
  exactly when no earlier unit has the same lowercased text, and joins the kept units in
  their order with single spaces; the text \<open>A. b. A. c.\<close> gives \<open>A. b. c.\<close>.
\<close>

theorem dedup_keeps_first_occurrences:
  "deduplicate_sentences text = join '' '' (first_occurrences (sentence_units text)) \<and>
   deduplicate_sentences ''A. b. A. c.'' = ''A. b. c.''"
proof
  show "deduplicate_sentences text = join '' '' (first_occurrences (sentence_units text))"
    by (simp add: deduplicate_units keep_unseen_first_occurrences)
  show "deduplicate_sentences ''A. b. A. c.'' = ''A. b. c.''"
    by code_simp
qed

theorem dedup_keeps_first_occurrences_witness:
  "sentence_units ''A. b. a. c.'' = [''A.'', ''b.'', ''a.'', ''c.''] \<and>
   first_occurrences [''A.'', ''b.'', ''a.'', ''c.''] = [''A.'', ''b.'', ''c.''] \<and>
   deduplicate_sentences ''A. b. a. c.'' = ''A. b. c.''"
proof -
  have u: "sentence_units ''A. b. a. c.'' = [''A.'', ''b.'', ''a.'', ''c.'']"
    by code_simp
  have k: "keep_unseen {} [''A.'', ''b.'', ''a.'', ''c.''] = [''A.'', ''b.'', ''c.'']"
    by code_simp
  have f: "first_occurrences [''A.'', ''b.'', ''a.'', ''c.''] = [''A.'', ''b.'', ''c.'']"
    using keep_unseen_first_occurrences [of "[''A.'', ''b.'', ''a.'', ''c.'']"] k by simp
  show ?thesis
    using dedup_keeps_first_occurrences [of "''A. b. a. c.''"] u f by simp
qed

text \<open>
  C7: in the loop over the chunks, a chunk whose generative call raises gets as its output
  the first two pieces of the sentence split of the chunk, joined by a blank and trimmed; a
  chunk whose call returns gets the trimmed summary. There is one output for every chunk
  and one call for every chunk, in the order of the chunks, whatever the earlier calls did.
  Once the pipeline is loaded the summarizer returns a string whatever the calls do, and when
  every call raises the string is the deduplicated join of the fallbacks of all chunks.
\<close>

theorem chunk_failure_not_propagated:
  "length (chunk_outputs wd mn mx nb nr lp cs st) = length cs \<and>
   (\<forall>k e. k < length cs \<and> chunk_response wd mn mx nb nr lp cs st k = Inl e \<longrightarrow>
      chunk_outputs wd mn mx nb nr lp cs st ! k
        = py_strip (join '' '' (take 2 (re_split_sentences (cs ! k))))) \<and>
   (\<forall>k res. k < length cs \<and> chunk_response wd mn mx nb nr lp cs st k = Inr res \<longrightarrow>
      chunk_outputs wd mn mx nb nr lp cs st ! k = py_strip res) \<and>
   calls (snd (chunk_loop wd mn mx nb nr lp cs [] st))
     = calls st @ chunk_requests mn mx nb nr lp cs \<and>
   (fst (get_transformer_pipeline wd st) = Inr () \<longrightarrow>
      (\<exists>s. fst (summarize_abstractive_transformers wd text mn mx nb nr lp st) = Inr s)) \<and>
   (fst (get_transformer_pipeline wd st) = Inr () \<and> (\<forall>h a. isl (respond wd h (PipeCall a))) \<longrightarrow>
      fst (summarize_abstractive_transformers wd text mn mx nb nr lp st)
        = Inr (deduplicate_sentences
            (join [CHR 0x0A, CHR 0x0A]
               (map (\<lambda>c. py_strip (join '' '' (take 2 (re_split_sentences c))))
                  (chunk_text text 450 60)))))"
proof -
  have fb: "chunk_fallback = (\<lambda>c. py_strip (join '' '' (take 2 (re_split_sentences c))))"
    by (rule ext) (simp add: chunk_fallback_def py_slice_first_two)
  have a: "length (chunk_outputs wd mn mx nb nr lp cs st) = length cs"
    by (simp add: chunk_outputs_closed)
  have b: "chunk_outputs wd mn mx nb nr lp cs st ! k
        = py_strip (join '' '' (take 2 (re_split_sentences (cs ! k))))"
    if "k < length cs" "chunk_response wd mn mx nb nr lp cs st k = Inl e" for k e
    using that by (simp add: chunk_outputs_closed fb)
  have c: "chunk_outputs wd mn mx nb nr lp cs st ! k = py_strip res"
    if "k < length cs" "chunk_response wd mn mx nb nr lp cs st k = Inr res" for k res
    using that by (simp add: chunk_outputs_closed)
  have d: "calls (snd (chunk_loop wd mn mx nb nr lp cs [] st))
     = calls st @ chunk_requests mn mx nb nr lp cs"
    by (rule chunk_loop_calls)
  have e: "\<exists>s. fst (summarize_abstractive_transformers wd text mn mx nb nr lp st) = Inr s"
    if "fst (get_transformer_pipeline wd st) = Inr ()"
    using that by (rule transformers_returns)
  have f: "fst (summarize_abstractive_transformers wd text mn mx nb nr lp st)
        = Inr (deduplicate_sentences
            (join [CHR 0x0A, CHR 0x0A]
               (map (\<lambda>c. py_strip (join '' '' (take 2 (re_split_sentences c))))
                  (chunk_text text 450 60))))"
    if "fst (get_transformer_pipeline wd st) = Inr ()" "\<forall>h a. isl (respond wd h (PipeCall a))"
    using transformers_all_fail [OF that] by (simp add: fb)
  show ?thesis using a b c d e f by blast
qed

theorem chunk_failure_not_propagated_witness:
  "chunk_outputs
     \<lparr>api_key = None,
      respond = (\<lambda>h c. case c of
                   PipeCall a \<Rightarrow> (if pa_text a = ''D e. F g.'' then Inr '' Short summary. ''
                                  else Inl (ExternalError ''index out of range''))
                 | _ \<Rightarrow> Inr [])\<rparr>
     5 20 4 3 (1 :: rat) [''A b. C d. E f.'', ''D e. F g.'', ''H i.'']
     \<lparr>transformer_pipe = True, calls = []\<rparr>
     = [''A b. C d.'', ''Short summary.'', ''H i.''] \<and>
   fst (summarize_abstractive_transformers
     \<lparr>api_key = None,
      respond = (\<lambda>h c. case c of
                   PipeCall a \<Rightarrow> Inl (ExternalError ''index out of range'')
                 | _ \<Rightarrow> Inr [])\<rparr>
     ''One two.  Three four. Five six.'' 5 20 4 3 (1 :: rat)
     \<lparr>transformer_pipe = False, calls = []\<rparr>)
     = Inr ''One two. Three four.''"
proof -
  let ?W = "\<lparr>api_key = None,
      respond = (\<lambda>h c. case c of
                   PipeCall a \<Rightarrow> (if pa_text a = ''D e. F g.'' then Inr '' Short summary. ''
                                  else Inl (ExternalError ''index out of range''))
                 | _ \<Rightarrow> Inr [])\<rparr> :: rat world"
  let ?V = "\<lparr>api_key = None,
      respond = (\<lambda>h c. case c of
                   PipeCall a \<Rightarrow> Inl (ExternalError ''index out of range'')
                 | _ \<Rightarrow> Inr [])\<rparr> :: rat world"
  let ?cs = "[''A b. C d. E f.'', ''D e. F g.'', ''H i.'']"
  let ?s1 = "\<lparr>transformer_pipe = True, calls = []\<rparr> :: rat py_state"
  let ?s0 = "\<lparr>transformer_pipe = False, calls = []\<rparr> :: rat py_state"
  let ?T = "''One two.  Three four. Five six.''"
  note t = chunk_failure_not_propagated [of ?W 5 20 4 3 1 ?cs ?s1 ?T]
  note u = chunk_failure_not_propagated [of ?V 5 20 4 3 1 ?cs ?s0 ?T]
  note t1 = t [THEN conjunct1]
  note t2 = t [THEN conjunct2, THEN conjunct1, rule_format]
  note t3 = t [THEN conjunct2, THEN conjunct2, THEN conjunct1, rule_format]
  note u6 = u [THEN conjunct2, THEN conjunct2, THEN conjunct2, THEN conjunct2, THEN conjunct2,
    rule_format]
  have r0: "chunk_response ?W 5 20 4 3 1 ?cs ?s1 0 = Inl (ExternalError ''index out of range'')"
    by (simp add: chunk_response_def chunk_args_def Let_def)
  have r1: "chunk_response ?W 5 20 4 3 1 ?cs ?s1 1 = Inr '' Short summary. ''"
    by (simp add: chunk_response_def chunk_args_def Let_def)
  have r2: "chunk_response ?W 5 20 4 3 1 ?cs ?s1 2 = Inl (ExternalError ''index out of range'')"
    by (simp add: chunk_response_def chunk_args_def Let_def)
  have f0: "py_strip (join '' '' (take 2 (re_split_sentences ''A b. C d. E f.''))) = ''A b. C d.''"
    by code_simp
  have f1: "py_strip '' Short summary. '' = ''Short summary.''" by code_simp
  have f2: "py_strip (join '' '' (take 2 (re_split_sentences ''H i.''))) = ''H i.''"
    by code_simp
  have len: "length (chunk_outputs ?W 5 20 4 3 1 ?cs ?s1) = 3" using t1 by simp
  have "chunk_outputs ?W 5 20 4 3 1 ?cs ?s1 ! 0
      = py_strip (join '' '' (take 2 (re_split_sentences (?cs ! 0))))"
    by (rule t2 [of 0]) (use r0 in simp)
  then have o0: "chunk_outputs ?W 5 20 4 3 1 ?cs ?s1 ! 0 = ''A b. C d.''"
    using f0 by simp
  have "chunk_outputs ?W 5 20 4 3 1 ?cs ?s1 ! 1 = py_strip '' Short summary. ''"
    by (rule t3 [of 1]) (use r1 in simp)
  then have o1: "chunk_outputs ?W 5 20 4 3 1 ?cs ?s1 ! 1 = ''Short summary.''"
    using f1 by simp
  have "chunk_outputs ?W 5 20 4 3 1 ?cs ?s1 ! 2
      = py_strip (join '' '' (take 2 (re_split_sentences (?cs ! 2))))"
    by (rule t2 [of 2]) (use r2 in simp)
  then have o2: "chunk_outputs ?W 5 20 4 3 1 ?cs ?s1 ! 2 = ''H i.''"
    using f2 by simp
  obtain x y z where xyz: "chunk_outputs ?W 5 20 4 3 1 ?cs ?s1 = [x, y, z]"
    using len by (auto simp: length_Suc_conv numeral_3_eq_3)
  have a: "chunk_outputs ?W 5 20 4 3 1 ?cs ?s1 = [''A b. C d.'', ''Short summary.'', ''H i.'']"
    using o0 o1 o2 unfolding xyz by simp
  have g: "fst (get_transformer_pipeline ?V ?s0) = Inr ()"
    by (simp add: get_transformer_pipeline_def call_backend_def)
  have h: "\<forall>h a. isl (respond ?V h (PipeCall a))" by simp
  have c: "chunk_text ?T 450 60 = [''One two. Three four. Five six.'']" by code_simp
  have d: "deduplicate_sentences (join [CHR 0x0A, CHR 0x0A]
      (map (\<lambda>c. py_strip (join '' '' (take 2 (re_split_sentences c))))
         [''One two. Three four. Five six.''])) = ''One two. Three four.''"
    by code_simp
  have "fst (summarize_abstractive_transformers ?V ?T 5 20 4 3 1 ?s0)
      = Inr (deduplicate_sentences (join [CHR 0x0A, CHR 0x0A]
          (map (\<lambda>c. py_strip (join '' '' (take 2 (re_split_sentences c))))
             (chunk_text ?T 450 60))))"
    by (rule u6) (rule conjI [OF g h])
  then have b: "fst (summarize_abstractive_transformers ?V ?T 5 20 4 3 1 ?s0) = Inr ''One two. Three four.''"
    unfolding c d .
  show ?thesis using a b by (rule conjI)
qed

text \<open>
  C8: when the text is empty or holds only white space, the facade returns the empty string
  for every mode, provider and backend, and leaves the state as it was: no backend call is
  recorded and the pipeline is not loaded.
\<close>

theorem blank_text_returns_empty:
  assumes "\<forall>c \<in> set text. is_space c"
  shows "py_strip text = [] \<and>
         summarize_text wd fdiv fpow text mode min_length max_length opts st = (Inr [], st)"
proof -
  have "py_strip text = []" using assms by (simp add: py_strip_empty_iff)
  then show ?thesis by (simp add: summarize_text_def)
qed

theorem blank_text_returns_empty_witness:
  "\<forall>wd fdiv fpow mode min_length max_length opts st.
     summarize_text wd fdiv fpow [CHR '' '', CHR 0x09, CHR 0x0A, CHR '' ''] mode
       min_length max_length opts st = (Inr [], st)"
proof (intro allI)
  fix wd :: "'f::linorder world" and fdiv fpow mode min_length max_length
    and opts :: "'f summarize_options" and st :: "'f py_state"
  have b: "\<forall>c \<in> set [CHR '' '', CHR 0x09, CHR 0x0A, CHR '' '']. is_space c"
    by (simp add: is_space_def)
  show "summarize_text wd fdiv fpow [CHR '' '', CHR 0x09, CHR 0x0A, CHR '' ''] mode
       min_length max_length opts st = (Inr [], st)"
    using blank_text_returns_empty [OF b, of wd fdiv fpow mode min_length max_length opts st]
    by simp
qed

text \<open>
  C10: the sort is stable and descending, so the candidates of any one score are considered
  in the order of their sentences in the document, and the selected sentences stand in the
  order in which they were considered. Being considered first is not being selected first:
  a candidate is passed over when it does not fit the remaining budget, and a later one, of
  the same score or a lower one, can still be accepted. That happens only when the later
  candidate has fewer words than the one passed over.
\<close>

theorem stable_tie_break:
  "sorted (rev (map fst (sorted_scores_by sc text))) \<and>
   (\<forall>k. filter (\<lambda>c. fst c = k) (sorted_scores_by sc text)
        = filter (\<lambda>c. fst c = k) (sentence_scores_by sc text)) \<and>
   set (sorted_scores_by sc text) = set (sentence_scores_by sc text) \<and>
   length (sorted_scores_by sc text) = length (sentence_scores_by sc text) \<and>
   map snd (sentence_scores_by sc text)
     = filter (\<lambda>s. word_tokens s \<noteq> []) (split_sentences text) \<and>
   subseq (extractive_selected_by sc text mx) (map snd (sorted_scores_by sc text)) \<and>
   (sorted_scores_by sc text \<noteq> [] \<longrightarrow>
      extractive_selected_by sc text mx \<noteq> [] \<and>
      hd (extractive_selected_by sc text mx) = snd (hd (sorted_scores_by sc text))) \<and>
   (distinct (map snd (sorted_scores_by sc text)) \<longrightarrow>
      (\<forall>i j. i < j \<and> j < length (sorted_scores_by sc text) \<and>
         snd (sorted_scores_by sc text ! j) \<in> set (extractive_selected_by sc text mx) \<and>
         snd (sorted_scores_by sc text ! i) \<notin> set (extractive_selected_by sc text mx)
         \<longrightarrow> word_count (snd (sorted_scores_by sc text ! j))
               < word_count (snd (sorted_scores_by sc text ! i))))"
proof -
  let ?cs = "sorted_scores_by sc text"
  let ?sel = "extractive_selected_by sc text mx"
  have sel: "?sel = select_loop mx ?cs [] 0" by (simp add: extractive_selected_by_def)
  have a: "sorted (rev (map fst ?cs))"
    by (simp add: sorted_scores_by_def py_sort_desc_sorted)
  have b: "filter (\<lambda>c. fst c = k) ?cs
        = filter (\<lambda>c. fst c = k) (sentence_scores_by sc text)" for k
    by (simp add: sorted_scores_by_def py_sort_desc_def rev_filter [symmetric] sort_key_stable)
  have c: "set ?cs = set (sentence_scores_by sc text)"
    by (simp add: sorted_scores_by_def set_py_sort_desc)
  have d: "length ?cs = length (sentence_scores_by sc text)"
    by (simp add: sorted_scores_by_def py_sort_desc_def)
  have e: "map snd (sentence_scores_by sc text)
     = filter (\<lambda>s. word_tokens s \<noteq> []) (split_sentences text)"
    by (simp add: sentence_scores_by_def score_loop_map o_def)
  have f: "subseq ?sel (map snd ?cs)"
    using select_loop_subseq [of mx ?cs "[]" 0] sel by auto
  have g: "?sel \<noteq> [] \<and> hd ?sel = snd (hd ?cs)" if cne: "?cs \<noteq> []"
  proof -
    obtain x rest where ar: "?cs = x # rest" using cne by (cases ?cs) auto
    obtain score s where "x = (score, s)" by (cases x)
    then have "?cs = (score, s) # rest" using ar by simp
    then show ?thesis using select_loop_first [of mx score s rest] sel by simp
  qed
  have h: "word_count (snd (?cs ! j)) < word_count (snd (?cs ! i))"
    if di: "distinct (map snd ?cs)" and ij: "i < j" and jl: "j < length ?cs"
      and jin: "snd (?cs ! j) \<in> set ?sel" and iout: "snd (?cs ! i) \<notin> set ?sel" for i j
  proof (rule select_loop_skipped [of 0 ?cs i j mx "[]"])
    show "(0::int) \<le> 0" by simp
    show "distinct (map snd ?cs)" by (rule di)
    show "i < j" by (rule ij)
    show "j < length ?cs" by (rule jl)
    show "snd (?cs ! j) \<in> set (select_loop mx ?cs [] 0)" using jin sel by simp
    show "snd (?cs ! j) \<notin> set []" by simp
    show "snd (?cs ! i) \<notin> set (select_loop mx ?cs [] 0)" using iout sel by simp
  qed
  show ?thesis using a b c d e f g h by blast
qed

theorem stable_tie_break_witness:
  "sorted_scores_by (\<lambda>a n. a) ''kkk kkk kkk. aaa bbb ccc ddd xx. aaa-bbb-ccc-ddd-xx.''
     = [(9, ''kkk kkk kkk.''), (8, ''aaa bbb ccc ddd xx.''), (8, ''aaa-bbb-ccc-ddd-xx.'')] \<and>
   extractive_selected_by (\<lambda>a n. a) ''kkk kkk kkk. aaa bbb ccc ddd xx. aaa-bbb-ccc-ddd-xx.'' 4
     = [''kkk kkk kkk.'', ''aaa-bbb-ccc-ddd-xx.''] \<and>
   filter (\<lambda>c. fst c = 8)
     (sentence_scores_by (\<lambda>a n. a) ''kkk kkk kkk. aaa bbb ccc ddd xx. aaa-bbb-ccc-ddd-xx.'')
     = [(8, ''aaa bbb ccc ddd xx.''), (8, ''aaa-bbb-ccc-ddd-xx.'')] \<and>
   word_count ''aaa-bbb-ccc-ddd-xx.'' < word_count ''aaa bbb ccc ddd xx.''"
proof -
  let ?T = "''kkk kkk kkk. aaa bbb ccc ddd xx. aaa-bbb-ccc-ddd-xx.''"
  have s: "sorted_scores_by (\<lambda>a n. a) ?T
     = [(9::nat, ''kkk kkk kkk.''), (8, ''aaa bbb ccc ddd xx.''), (8, ''aaa-bbb-ccc-ddd-xx.'')]"
    by code_simp
  have x: "extractive_selected_by (\<lambda>a n. a) ?T 4 = [''kkk kkk kkk.'', ''aaa-bbb-ccc-ddd-xx.'']"
    by code_simp
  note t = stable_tie_break [of "\<lambda>a n. a" ?T 4]
  have "filter (\<lambda>c. fst c = 8) (sorted_scores_by (\<lambda>a n. a) ?T)
     = filter (\<lambda>c. fst c = 8) (sentence_scores_by (\<lambda>a n. a) ?T)"
    using t by blast
  then have f: "filter (\<lambda>c. fst c = 8) (sentence_scores_by (\<lambda>a n. a) ?T)
     = [(8, ''aaa bbb ccc ddd xx.''), (8, ''aaa-bbb-ccc-ddd-xx.'')]"
    using s by simp
  have di: "distinct (map snd (sorted_scores_by (\<lambda>a n. a) ?T))" unfolding s by simp
  have "1 < (2::nat) \<and> 2 < length (sorted_scores_by (\<lambda>a n. a) ?T) \<and>
      snd (sorted_scores_by (\<lambda>a n. a) ?T ! 2) \<in> set (extractive_selected_by (\<lambda>a n. a) ?T 4) \<and>
      snd (sorted_scores_by (\<lambda>a n. a) ?T ! 1) \<notin> set (extractive_selected_by (\<lambda>a n. a) ?T 4)"
    unfolding s x by simp
  then have "word_count (snd (sorted_scores_by (\<lambda>a n. a) ?T ! 2))
      < word_count (snd (sorted_scores_by (\<lambda>a n. a) ?T ! 1))"
    using t di by blast
  then have w: "word_count ''aaa-bbb-ccc-ddd-xx.'' < word_count ''aaa bbb ccc ddd xx.''"
    unfolding s by simp
  show ?thesis using s x f w by simp
qed

theorem tie_break_later_selected_counterexample:
  "\<forall>sc. sorted_scores_by sc ''aaa-bbb. aaa bbb. aaa.bbb.''
       = [(sc 6 2, ''aaa-bbb.''), (sc 6 2, ''aaa bbb.''), (sc 6 2, ''aaa.bbb.'')] \<and>
     extractive_selected_by sc ''aaa-bbb. aaa bbb. aaa.bbb.'' 2 = [''aaa-bbb.'', ''aaa.bbb.''] \<and>
     summarize_extractive_by sc ''aaa-bbb. aaa bbb. aaa.bbb.'' 1 2 = ''aaa-bbb. aaa.bbb.''"
proof
  fix sc :: "nat \<Rightarrow> nat \<Rightarrow> 'a::linorder"
  let ?T = "''aaa-bbb. aaa bbb. aaa.bbb.''"
  have p: "sentence_scores_by Pair ?T
      = [((6, 2), ''aaa-bbb.''), ((6, 2), ''aaa bbb.''), ((6, 2), ''aaa.bbb.'')]"
    by code_simp
  have s: "sorted_scores_by sc ?T
       = [(sc 6 2, ''aaa-bbb.''), (sc 6 2, ''aaa bbb.''), (sc 6 2, ''aaa.bbb.'')]"
    by (simp add: sorted_scores_by_def py_sort_desc_def sentence_scores_by_Pair [of sc] p)
  have w: "word_count ''aaa-bbb.'' = 1" "word_count ''aaa bbb.'' = 2" "word_count ''aaa.bbb.'' = 1"
    by code_simp+
  have x: "extractive_selected_by sc ?T 2 = [''aaa-bbb.'', ''aaa.bbb.'']"
    by (simp add: extractive_selected_by_def s w Let_def)
  have ss: "split_sentences ?T \<noteq> []" by code_simp
  have j: "join '' '' [''aaa-bbb.'', ''aaa.bbb.''] = ''aaa-bbb. aaa.bbb.''"
    by code_simp
  have d: "deduplicate_sentences ''aaa-bbb. aaa.bbb.'' = ''aaa-bbb. aaa.bbb.''"
    by code_simp
  have "summarize_extractive_by sc ?T 1 2
      = deduplicate_sentences (join '' '' [''aaa-bbb.'', ''aaa.bbb.''])"
    using ss by (simp add: summarize_extractive_by_def x Let_def)
  then have y: "summarize_extractive_by sc ?T 1 2 = ''aaa-bbb. aaa.bbb.''"
    using j d by metis
  show "sorted_scores_by sc ?T
       = [(sc 6 2, ''aaa-bbb.''), (sc 6 2, ''aaa bbb.''), (sc 6 2, ''aaa.bbb.'')] \<and>
     extractive_selected_by sc ?T 2 = [''aaa-bbb.'', ''aaa.bbb.''] \<and>
     summarize_extractive_by sc ?T 1 2 = ''aaa-bbb. aaa.bbb.''"
    using s x y by simp
qed

text \<open>
  C9: when the trimmed text is not empty and the mode is neither \<open>extractive\<close> nor
  \<open>abstractive\<close>, the facade raises \<open>ValueError\<close> with the message \<open>Unknown mode: \<close> followed
  by the mode, and calls no backend. On a blank text the facade returns the empty string
  before it looks at the mode.
\<close>

theorem unknown_mode_raises:
  assumes "py_strip text \<noteq> []" and "mode \<noteq> ''extractive''" and "mode \<noteq> ''abstractive''"
  shows "summarize_text wd fdiv fpow text mode min_length max_length opts st
           = (Inl (ValueError (''Unknown mode: '' @ mode)), st)"
  using assms by (simp add: summarize_text_def Let_def)

theorem unknown_mode_raises_witness:
  "\<forall>wd fdiv fpow min_length max_length opts st.
     summarize_text wd fdiv fpow '' Some text. '' ''unknown'' min_length max_length opts st
       = (Inl (ValueError ''Unknown mode: unknown''), st)"
proof (intro allI)
  fix wd :: "'f::linorder world" and fdiv fpow min_length max_length
    and opts :: "'f summarize_options" and st :: "'f py_state"
  have a: "py_strip '' Some text. '' \<noteq> []" by code_simp
  have b: "''unknown'' \<noteq> ''extractive''" "''unknown'' \<noteq> ''abstractive''" by simp_all
  show "summarize_text wd fdiv fpow '' Some text. '' ''unknown'' min_length max_length opts st
       = (Inl (ValueError ''Unknown mode: unknown''), st)"
    using unknown_mode_raises [OF a b, of wd fdiv fpow min_length max_length opts st] by simp
qed

theorem unknown_mode_blank_text_counterexample:
  "\<forall>wd fdiv fpow min_length max_length opts st.
     summarize_text wd fdiv fpow ''   '' ''unknown'' min_length max_length opts st = (Inr [], st)"
proof (intro allI)
  fix wd :: "'f::linorder world" and fdiv fpow min_length max_length
    and opts :: "'f summarize_options" and st :: "'f py_state"
  have "py_strip ''   '' = []" by code_simp
  then show "summarize_text wd fdiv fpow ''   '' ''unknown'' min_length max_length opts st = (Inr [], st)"
    by (simp add: summarize_text_def)
qed

end
